theory Spec2Isabelle
  imports Main
begin

text \<open>
  The streaming transcoder of the proxy, from \<open>openai.ts\<close> and \<open>utils.ts\<close>:
  \<open>processProviderStream\<close> reads the upstream body, frames it into lines and hands the payload
  of each \<open>data: \<close> line to a callback; the callback of \<open>convertStreamResponse\<close> turns an
  OpenAI chunk into \<open>content_block\<close> events and keeps the count of output tokens. The model
  follows the code statement by statement: what the code throws is an \<open>error\<close> value, what it
  mutates is passed along, and what it enqueues on the controller is a list of events.
\<close>

section \<open>JavaScript strings\<close>

text \<open>
  A string is a list of characters, one per code unit; the model covers the code units
  below 256. Of ECMAScript's white space and line terminators these are TAB, LF, VT, FF,
  CR, SPACE and NBSP, which is what \<open>String.prototype.trim\<close> removes at both ends.
\<close>

definition is_ws :: "char \<Rightarrow> bool" where
  "is_ws c \<longleftrightarrow> c \<in> set [CHR 0x09, CHR 0x0A, CHR 0x0B, CHR 0x0C, CHR 0x0D, CHR 0x20, CHR 0xA0]"

definition trim :: "string \<Rightarrow> string" where
  "trim s = rev (dropWhile is_ws (rev (dropWhile is_ws s)))"

definition startsWith :: "string \<Rightarrow> string \<Rightarrow> bool" where
  "startsWith s p \<longleftrightarrow> take (length p) s = p"

text \<open>\<open>s.slice(6)\<close>: the string without its first six code units, empty when it is shorter.\<close>

definition slice6 :: "string \<Rightarrow> string" where
  "slice6 s = drop 6 s"

text \<open>
  \<open>s.split('\n')\<close>: the pieces between line feeds; never empty (the empty string gives one
  empty piece).
\<close>

fun split_nl :: "string \<Rightarrow> string list" where
  "split_nl [] = [[]]"
| "split_nl (c # cs) =
     (if c = CHR 0x0A then [] # split_nl cs
      else (case split_nl cs of [] \<Rightarrow> [[c]] | l # ls \<Rightarrow> (c # l) # ls))"

text \<open>\<open>lines.pop() || ''\<close> and what \<open>pop\<close> leaves in the array.\<close>

definition pop_or_empty :: "string list \<Rightarrow> string" where
  "pop_or_empty ls = (if ls = [] then [] else last ls)"

definition after_pop :: "string list \<Rightarrow> string list" where
  "after_pop ls = butlast ls"

section \<open>Wire data\<close>

text \<open>
  A JSON value, as \<open>safeJsonParse\<close> returns it and \<open>JSON.stringify\<close> takes it. The code
  never looks inside one; numbers are kept as integers here.
\<close>

datatype json = JNull | JBool bool | JNum int | JStr string | JArr "json list"
  | JObj "(string \<times> json) list"

text \<open>
  The provider's streaming chunk (\<open>types.OpenAIStreamResponse\<close>), with the fields the
  transcoder reads. The value comes from \<open>JSON.parse\<close> and the cast to the type is not
  checked, so every field may be absent or \<open>null\<close> (\<open>None\<close>), and so may every object
  the code dereferences: an entry of \<open>choices\<close>, the \<open>delta\<close> of a choice, an entry of
  \<open>tool_calls\<close>, the \<open>function\<close> of a tool call. A field that is present holds a value
  of its declared type.
\<close>

record OpenAIFunctionCall =
  fn_name :: "string option"
  fn_arguments :: "string option"

record OpenAIToolCall =
  tc_function :: "OpenAIFunctionCall option"

record OpenAIDelta =
  content :: "string option"
  tool_calls :: "OpenAIToolCall option list option"

record OpenAIChoice =
  delta :: "OpenAIDelta option"

record OpenAIStreamResponse =
  choices :: "OpenAIChoice option list option"

text \<open>
  What \<open>JSON.parse\<close> returns for a payload: the value \<open>null\<close>, or a value whose fields can
  be read (a value that is not an object has none of the fields).
\<close>

datatype parsed = NullValue | Value OpenAIStreamResponse

text \<open>
  The outbound events. The code renders each as
  \<open>event: <type>\ndata: <JSON payload>\n\n\<close>; an event here is the payload before
  rendering, its \<open>type\<close> being the constructor.
\<close>

datatype content_block = TextBlock string | ToolUseBlock string string

datatype block_delta = TextDelta string | InputJsonDelta string

record usage =
  input_tokens :: nat
  output_tokens :: nat

datatype event =
    MessageStart string
  | ContentBlockStart nat content_block
  | ContentBlockDelta nat block_delta
  | ContentBlockStop nat
  | MessageStop "usage option"

text \<open>
  What the code can throw: the \<open>SyntaxError\<close> of \<open>JSON.parse\<close>, the \<open>TypeError\<close> of reading
  a property of \<open>null\<close> or \<open>undefined\<close>, and the rejection of \<open>reader.read()\<close>.
\<close>

datatype error = SyntaxError | TypeError | ReadError

section \<open>The platform and the estimator\<close>

text \<open>
  The built-ins of the runtime are parameters. \<open>json_parse_chunk\<close> is
  \<open>JSON.parse(jsonStr) as types.OpenAIStreamResponse\<close> and \<open>json_parse\<close> is \<open>JSON.parse\<close>
  at type \<open>any\<close>; both give \<open>None\<close> where \<open>JSON.parse\<close> throws a \<open>SyntaxError\<close>.
  \<open>random_id k\<close> is the string that the \<open>k\<close>-th evaluation of
  \<open>Math.random().toString(36).substring(2)\<close> yields.
\<close>

record js =
  json_parse_chunk :: "string \<Rightarrow> parsed option"
  json_parse :: "string \<Rightarrow> json option"
  json_stringify :: "json \<Rightarrow> string"
  random_id :: "nat \<Rightarrow> string"

text \<open>
  \<open>OptimizedTokenEstimator\<close> (\<open>token-estimator.ts\<close>) is taken as a parameter: two
  functions returning token counts. \<open>'m\<close> is the type of a request's message list.
\<close>

record 'm TokenEstimator =
  estimate :: "string \<Rightarrow> nat"
  estimateMessages :: "'m \<Rightarrow> nat"

record 'm ClaudeRequest =
  messages :: 'm

text \<open>
  What the code mutates outside the locals of the stream: the number of identifiers drawn
  so far, and the closure variable \<open>accumulatedOutputTokens\<close> of \<open>convertStreamResponse\<close>.
\<close>

record world =
  ids_drawn :: nat
  accumulatedOutputTokens :: nat

definition generateId :: "js \<Rightarrow> world \<Rightarrow> string \<times> world" where
  "generateId p w = (random_id p (ids_drawn w), w\<lparr>ids_drawn := ids_drawn w + 1\<rparr>)"

text \<open>
  Modelled from the spec: \<open>safeJsonParse\<close> lives in \<open>token-estimator.ts\<close>, which is not
  among the sources. The specification says that it must not raise on malformed argument
  JSON and treats unparsable argument text as an empty-object value.
\<close>

definition safeJsonParse :: "js \<Rightarrow> string \<Rightarrow> json" where
  "safeJsonParse p s = (case json_parse p s of Some v \<Rightarrow> v | None \<Rightarrow> JObj [])"

section \<open>Event encoders\<close>

definition sendMessageStart :: "js \<Rightarrow> world \<Rightarrow> event \<times> world" where
  "sendMessageStart p w = (case generateId p w of (i, w') \<Rightarrow> (MessageStart i, w'))"

definition sendMessageStop :: "usage option \<Rightarrow> event" where
  "sendMessageStop u = MessageStop u"

definition processTextPart :: "string \<Rightarrow> nat \<Rightarrow> event list" where
  "processTextPart text index =
     [ContentBlockStart index (TextBlock []),
      ContentBlockDelta index (TextDelta text),
      ContentBlockStop index]"

definition processToolUsePart :: "js \<Rightarrow> string \<Rightarrow> json \<Rightarrow> nat \<Rightarrow> world \<Rightarrow> event list \<times> world" where
  "processToolUsePart p name args index w =
     (case generateId p w of (toolUseId, w') \<Rightarrow>
        ([ContentBlockStart index (ToolUseBlock toolUseId name),
          ContentBlockDelta index (InputJsonDelta (json_stringify p args)),
          ContentBlockStop index], w'))"

section \<open>The OpenAI line callback of \<open>convertStreamResponse\<close>\<close>

record LineResult =
  events :: "event list"
  textBlockIndex :: nat
  toolUseBlockIndex :: nat
  outputTokens :: "nat option"

text \<open>Truthiness of an optional string: present and not empty.\<close>

fun truthy :: "string option \<Rightarrow> bool" where
  "truthy None = False"
| "truthy (Some s) = (s \<noteq> [])"

text \<open>\<open>toolCall.function?.name\<close> and \<open>toolCall.function?.arguments\<close>.\<close>

definition function_name :: "OpenAIToolCall \<Rightarrow> string option" where
  "function_name toolCall = (case tc_function toolCall of None \<Rightarrow> None | Some f \<Rightarrow> fn_name f)"

definition function_arguments :: "OpenAIToolCall \<Rightarrow> string option" where
  "function_arguments toolCall =
     (case tc_function toolCall of None \<Rightarrow> None | Some f \<Rightarrow> fn_arguments f)"

text \<open>
  The locals of the callback that its two parts update: \<open>events\<close>, \<open>currentTextIndex\<close>,
  \<open>currentToolIndex\<close>, and the world.
\<close>

type_synonym cb_state = "event list \<times> nat \<times> nat \<times> world"

definition text_part :: "'m TokenEstimator \<Rightarrow> OpenAIDelta \<Rightarrow> cb_state \<Rightarrow> cb_state" where
  "text_part est d st =
     (case st of (evs, currentTextIndex, currentToolIndex, w) \<Rightarrow>
        if truthy (content d) then
          (evs @ processTextPart (the (content d)) currentTextIndex,
           currentTextIndex + 1, currentToolIndex,
           w\<lparr>accumulatedOutputTokens :=
                accumulatedOutputTokens w + estimate est (the (content d))\<rparr>)
        else st)"

text \<open>The body of \<open>for (const toolCall of delta.tool_calls)\<close>.\<close>

definition tool_call_step :: "js \<Rightarrow> 'm TokenEstimator \<Rightarrow> cb_state \<Rightarrow> OpenAIToolCall \<Rightarrow> cb_state" where
  "tool_call_step p est st toolCall =
     (case st of (evs, currentTextIndex, currentToolIndex, w) \<Rightarrow>
        if truthy (function_name toolCall) \<and> truthy (function_arguments toolCall) then
          (let toolArgs = safeJsonParse p (the (function_arguments toolCall));
               name = the (function_name toolCall)
           in case processToolUsePart p name toolArgs currentToolIndex w of (tevs, w1) \<Rightarrow>
                (evs @ tevs, currentTextIndex, currentToolIndex + 1,
                 w1\<lparr>accumulatedOutputTokens :=
                       accumulatedOutputTokens w1 + estimate est name
                         + estimate est (json_stringify p toolArgs)\<rparr>))
        else st)"

text \<open>
  The loop \<open>for (const toolCall of delta.tool_calls)\<close>. At an entry that is \<open>null\<close> the
  test \<open>toolCall.function?.name\<close> throws a \<open>TypeError\<close>; the loop then ends with the
  locals and the world as the entries before it left them.
\<close>

fun tool_calls_loop :: "js \<Rightarrow> 'm TokenEstimator \<Rightarrow> OpenAIToolCall option list \<Rightarrow> cb_state
    \<Rightarrow> cb_state \<times> error option" where
  "tool_calls_loop p est [] st = (st, None)"
| "tool_calls_loop p est (None # rest) st = (st, Some TypeError)"
| "tool_calls_loop p est (Some toolCall # rest) st =
     tool_calls_loop p est rest (tool_call_step p est st toolCall)"

definition tool_calls_part :: "js \<Rightarrow> 'm TokenEstimator \<Rightarrow> OpenAIDelta \<Rightarrow> cb_state
    \<Rightarrow> cb_state \<times> error option" where
  "tool_calls_part p est d st =
     (case tool_calls d of None \<Rightarrow> (st, None)
      | Some tcs \<Rightarrow> tool_calls_loop p est tcs st)"

text \<open>
  The arrow function handed to \<open>processProviderStream\<close>. It returns what the function
  returns or the error it throws, and the world as it leaves it: when a \<open>TypeError\<close> is
  thrown inside the loop over the tool calls, the events collected so far are lost with the
  locals, but the identifiers drawn and the tokens added to \<open>accumulatedOutputTokens\<close> stay.
\<close>

definition processLine :: "js \<Rightarrow> 'm TokenEstimator \<Rightarrow> string \<Rightarrow> nat \<Rightarrow> nat \<Rightarrow> world
    \<Rightarrow> (error + LineResult option) \<times> world" where
  "processLine p est jsonStr textIdx toolIdx w =
     (case json_parse_chunk p jsonStr of
        None \<Rightarrow> (Inl SyntaxError, w)
      | Some NullValue \<Rightarrow> (Inl TypeError, w)
      | Some (Value openaiData) \<Rightarrow>
          (case choices openaiData of
             None \<Rightarrow> (Inr None, w)
           | Some [] \<Rightarrow> (Inr None, w)
           | Some (None # _) \<Rightarrow> (Inl TypeError, w)
           | Some (Some choice # _) \<Rightarrow>
               (case delta choice of
                  None \<Rightarrow> (Inl TypeError, w)
                | Some d \<Rightarrow>
                    (case tool_calls_part p est d (text_part est d ([], textIdx, toolIdx, w)) of
                       ((evs, currentTextIndex, currentToolIndex, w'), Some e) \<Rightarrow> (Inl e, w')
                     | ((evs, currentTextIndex, currentToolIndex, w'), None) \<Rightarrow>
                         (Inr (Some \<lparr>events = evs, textBlockIndex = currentTextIndex,
                                     toolUseBlockIndex = currentToolIndex,
                                     outputTokens = Some (accumulatedOutputTokens w')\<rparr>), w')))))"

section \<open>\<open>processProviderStream\<close>\<close>

text \<open>
  The upstream body: the decoded text of each successful \<open>reader.read()\<close>, and how the
  reads end (\<open>done\<close>, or a read that rejects). The decoder runs in streaming mode, so the
  texts of the reads concatenate to the text of the whole body.
\<close>

datatype ending = Done | ReadFails

record upstream =
  reads :: "string list"
  ending :: ending

text \<open>
  The locals of \<open>start(controller)\<close>, the events enqueued on the controller so far, and
  the world.
\<close>

record locals =
  buffer :: string
  text_index :: nat
  tool_index :: nat
  totalOutputTokens :: nat
  enqueued :: "event list"
  world :: world

type_synonym line_fn = "string \<Rightarrow> nat \<Rightarrow> nat \<Rightarrow> world \<Rightarrow> (error + LineResult option) \<times> world"

text \<open>\<open>if (result.outputTokens) totalOutputTokens = result.outputTokens\<close>.\<close>

definition take_tokens :: "LineResult \<Rightarrow> nat \<Rightarrow> nat" where
  "take_tokens result current =
     (case outputTokens result of None \<Rightarrow> current | Some n \<Rightarrow> if n \<noteq> 0 then n else current)"

text \<open>The \<open>for (const line of lines)\<close> loop; it stops where \<open>processLine\<close> throws.\<close>

fun process_lines :: "line_fn \<Rightarrow> string list \<Rightarrow> locals \<Rightarrow> locals \<times> error option" where
  "process_lines pl [] s = (s, None)"
| "process_lines pl (line # rest) s =
     (if trim line = [] \<or> \<not> startsWith line ''data: '' then process_lines pl rest s
      else if slice6 line = ''[DONE]'' then process_lines pl rest s
      else (case pl (slice6 line) (text_index s) (tool_index s) (world s) of
              (Inl e, w) \<Rightarrow> (s\<lparr>world := w\<rparr>, Some e)
            | (Inr None, w) \<Rightarrow> process_lines pl rest (s\<lparr>world := w\<rparr>)
            | (Inr (Some result), w) \<Rightarrow>
                process_lines pl rest
                  (s\<lparr>text_index := textBlockIndex result,
                     tool_index := toolUseBlockIndex result,
                     totalOutputTokens := take_tokens result (totalOutputTokens s),
                     enqueued := enqueued s @ events result,
                     world := w\<rparr>)))"

text \<open>The \<open>while (true)\<close> loop over the reads.\<close>

fun read_loop :: "line_fn \<Rightarrow> string list \<Rightarrow> ending \<Rightarrow> locals \<Rightarrow> locals \<times> error option" where
  "read_loop pl [] Done s = (s, None)"
| "read_loop pl [] ReadFails s = (s, Some ReadError)"
| "read_loop pl (v # vs) e s =
     (let lines = split_nl (buffer s @ v) in
      case process_lines pl (after_pop lines) (s\<lparr>buffer := pop_or_empty lines\<rparr>) of
        (s', Some err) \<Rightarrow> (s', Some err)
      | (s', None) \<Rightarrow> read_loop pl vs e s')"

text \<open>
  What the consumer of the outbound stream can observe: the events enqueued, whether
  \<open>controller.close()\<close> was reached, the error with which \<open>start\<close> rejects if any, and the
  locals at that point.
\<close>

record outcome =
  emitted :: "event list"
  closed :: bool
  raised :: "error option"
  final :: locals

text \<open>The first statement of the \<open>finally\<close> block: the remainder left in the buffer.\<close>

definition flush_buffer :: "line_fn \<Rightarrow> locals \<Rightarrow> error + locals" where
  "flush_buffer pl s =
     (if trim (buffer s) \<noteq> [] then
        (case pl (slice6 (buffer s)) (text_index s) (tool_index s) (world s) of
           (Inl e, w) \<Rightarrow> Inl e
         | (Inr None, w) \<Rightarrow> Inr (s\<lparr>world := w\<rparr>)
         | (Inr (Some result), w) \<Rightarrow>
             Inr (s\<lparr>totalOutputTokens := take_tokens result (totalOutputTokens s),
                    enqueued := enqueued s @ events result,
                    world := w\<rparr>))
      else Inr s)"

definition final_usage :: "'m ClaudeRequest option \<Rightarrow> 'm TokenEstimator option \<Rightarrow> nat \<Rightarrow> usage option" where
  "final_usage originalClaudeRequest tokenEstimator outTokens =
     (case originalClaudeRequest of
        None \<Rightarrow> None
      | Some req \<Rightarrow>
          (case tokenEstimator of
             None \<Rightarrow> None
           | Some est \<Rightarrow>
               Some \<lparr>input_tokens = estimateMessages est (messages req),
                     output_tokens = outTokens\<rparr>))"

text \<open>
  The \<open>finally\<close> block. An error thrown inside it leaves the block at once; otherwise the
  error pending from the loop, if any, is thrown again after \<open>controller.close()\<close>.
\<close>

definition finally_block :: "line_fn \<Rightarrow> 'm ClaudeRequest option \<Rightarrow> 'm TokenEstimator option
    \<Rightarrow> locals \<times> error option \<Rightarrow> outcome" where
  "finally_block pl originalClaudeRequest tokenEstimator r =
     (case r of (s, pending) \<Rightarrow>
        (case flush_buffer pl s of
           Inl e \<Rightarrow> \<lparr>emitted = enqueued s, closed = False, raised = Some e, final = s\<rparr>
         | Inr s' \<Rightarrow>
             \<lparr>emitted = enqueued s' @
                  [sendMessageStop
                     (final_usage originalClaudeRequest tokenEstimator (totalOutputTokens s'))],
               closed = True, raised = pending, final = s'\<rparr>))"

text \<open>The locals as declared, with \<open>message_start\<close> already enqueued.\<close>

definition start_locals :: "event \<Rightarrow> world \<Rightarrow> locals" where
  "start_locals ev w =
     \<lparr>buffer = [], text_index = 0, tool_index = 0, totalOutputTokens = 0,
      enqueued = [ev], world = w\<rparr>"

definition processProviderStream :: "js \<Rightarrow> upstream option \<Rightarrow> line_fn \<Rightarrow> 'm ClaudeRequest option
    \<Rightarrow> 'm TokenEstimator option \<Rightarrow> world \<Rightarrow> outcome" where
  "processProviderStream p body pl originalClaudeRequest tokenEstimator w =
     (case body of
        None \<Rightarrow>
          \<lparr>emitted = [], closed = True, raised = None,
            final = \<lparr>buffer = [], text_index = 0, tool_index = 0, totalOutputTokens = 0,
                     enqueued = [], world = w\<rparr>\<rparr>
      | Some up \<Rightarrow>
          (case sendMessageStart p w of (ev, w') \<Rightarrow>
             finally_block pl originalClaudeRequest tokenEstimator
               (read_loop pl (reads up) (ending up) (start_locals ev w'))))"


definition convertStreamResponse :: "js \<Rightarrow> 'm TokenEstimator \<Rightarrow> upstream option
    \<Rightarrow> 'm ClaudeRequest option \<Rightarrow> world \<Rightarrow> outcome" where
  "convertStreamResponse p est body originalClaudeRequest w =
     processProviderStream p body (processLine p est) originalClaudeRequest (Some est)
       (w\<lparr>accumulatedOutputTokens := 0\<rparr>)"

section \<open>Sample payloads and a sample platform\<close>

text \<open>
  The payloads of the sample runs below, each with the chunk that \<open>JSON.parse\<close> returns for
  it. The other texts the sample runs use, \<open>BAD\<close>, \<open>[DONE]\<close>, \<open>{bad\<close>, \<open>not json\<close> and the
  empty text, are not JSON texts: \<open>JSON.parse\<close> throws a \<open>SyntaxError\<close> on each.
\<close>

definition hi_payload :: string where
  \<open>hi_payload = ''{"choices":[{"delta":{"content":"Hi"}}]}''\<close>

definition hi_chunk :: OpenAIStreamResponse where
  "hi_chunk =
     \<lparr>choices = Some [Some \<lparr>delta = Some \<lparr>content = Some ''Hi'', tool_calls = None\<rparr>\<rparr>]\<rparr>"

definition no_choices_payload :: string where
  \<open>no_choices_payload = ''{"choices":[]}''\<close>

definition no_choices_chunk :: OpenAIStreamResponse where
  "no_choices_chunk = \<lparr>choices = Some []\<rparr>"

definition lookup_call :: "string \<Rightarrow> OpenAIToolCall" where
  "lookup_call a = \<lparr>tc_function = Some \<lparr>fn_name = Some ''lookup'', fn_arguments = Some a\<rparr>\<rparr>"

definition mixed_payload :: string where
  \<open>mixed_payload = ''{"choices":[{"delta":{"content":"A","tool_calls":[{"function":{"name":"lookup","arguments":"[1]"}}]}}]}''\<close>

definition mixed_delta :: OpenAIDelta where
  "mixed_delta = \<lparr>content = Some ''A'', tool_calls = Some [Some (lookup_call ''[1]'')]\<rparr>"

definition mixed_chunk :: OpenAIStreamResponse where
  "mixed_chunk = \<lparr>choices = Some [Some \<lparr>delta = Some mixed_delta\<rparr>]\<rparr>"

definition badargs_payload :: string where
  \<open>badargs_payload = ''{"choices":[{"delta":{"tool_calls":[{"function":{"name":"lookup","arguments":"not json"}}]}}]}''\<close>

definition badargs_delta :: OpenAIDelta where
  "badargs_delta = \<lparr>content = None, tool_calls = Some [Some (lookup_call ''not json'')]\<rparr>"

definition badargs_chunk :: OpenAIStreamResponse where
  "badargs_chunk = \<lparr>choices = Some [Some \<lparr>delta = Some badargs_delta\<rparr>]\<rparr>"

definition emptyargs_payload :: string where
  \<open>emptyargs_payload = ''{"choices":[{"delta":{"tool_calls":[{"function":{"name":"lookup","arguments":""}}]}}]}''\<close>

definition emptyargs_chunk :: OpenAIStreamResponse where
  "emptyargs_chunk =
     \<lparr>choices = Some [Some \<lparr>delta = Some
        \<lparr>content = None, tool_calls = Some [Some (lookup_call [])]\<rparr>\<rparr>]\<rparr>"

definition badargs_nameless_call :: OpenAIToolCall where
  "badargs_nameless_call =
     \<lparr>tc_function = Some \<lparr>fn_name = None, fn_arguments = Some ''not json''\<rparr>\<rparr>"

definition nameless_payload :: string where
  \<open>nameless_payload = ''{"choices":[{"delta":{"tool_calls":[{"function":{"arguments":"not json"}}]}}]}''\<close>

definition nameless_chunk :: OpenAIStreamResponse where
  "nameless_chunk =
     \<lparr>choices = Some [Some \<lparr>delta = Some
        \<lparr>content = None, tool_calls = Some [Some badargs_nameless_call]\<rparr>\<rparr>]\<rparr>"

definition nodelta_payload :: string where
  \<open>nodelta_payload = ''{"choices":[{}]}''\<close>

definition nodelta_chunk :: OpenAIStreamResponse where
  "nodelta_chunk = \<lparr>choices = Some [Some \<lparr>delta = None\<rparr>]\<rparr>"

definition nullcall_payload :: string where
  \<open>nullcall_payload = ''{"choices":[{"delta":{"content":"A","tool_calls":[null]}}]}''\<close>

definition nullcall_chunk :: OpenAIStreamResponse where
  "nullcall_chunk =
     \<lparr>choices = Some [Some \<lparr>delta = Some \<lparr>content = Some ''A'', tool_calls = Some [None]\<rparr>\<rparr>]\<rparr>"

text \<open>
  The built-ins tabulated on these payloads. \<open>sample_js\<close> answers every other text with a
  \<open>SyntaxError\<close> and serialises every other value as the empty object; the sample runs
  call it on the texts named above and on the values \<open>[1]\<close> and \<open>{}\<close> only.
\<close>

definition sample_js :: js where
  "sample_js = \<lparr>
     json_parse_chunk = (\<lambda>s. if s = hi_payload then Some (Value hi_chunk)
                            else if s = no_choices_payload then Some (Value no_choices_chunk)
                            else if s = mixed_payload then Some (Value mixed_chunk)
                            else if s = badargs_payload then Some (Value badargs_chunk)
                            else if s = emptyargs_payload then Some (Value emptyargs_chunk)
                            else if s = nameless_payload then Some (Value nameless_chunk)
                            else if s = nodelta_payload then Some (Value nodelta_chunk)
                            else if s = nullcall_payload then Some (Value nullcall_chunk)
                            else if s = ''null'' then Some NullValue
                            else None),
     json_parse = (\<lambda>s. if s = ''[1]'' then Some (JArr [JNum 1]) else None),
     json_stringify = (\<lambda>v. if v = JArr [JNum 1] then ''[1]'' else ''{}''),
     random_id = (\<lambda>k. ''id'' @ replicate k (CHR ''a''))\<rparr>"

definition sample_est :: "string list TokenEstimator" where
  "sample_est = \<lparr>estimate = (\<lambda>s. (length s + 3) div 4),
                 estimateMessages = (\<lambda>ms. sum_list (map (\<lambda>s. (length s + 3) div 4) ms))\<rparr>"

definition fresh_world :: world where
  "fresh_world = \<lparr>ids_drawn = 0, accumulatedOutputTokens = 0\<rparr>"

definition body_of :: "string list \<Rightarrow> upstream option" where
  "body_of vs = Some \<lparr>reads = vs, ending = Done\<rparr>"

section \<open>Shapes of event sequences\<close>

text \<open>
  \<open>triples es\<close>: the sequence is made of start, delta, stop groups, the three events of a
  group carrying one index.
\<close>

fun triples :: "event list \<Rightarrow> bool" where
  "triples [] = True"
| "triples (ContentBlockStart i b # ContentBlockDelta j d # ContentBlockStop k # rest) =
     (i = j \<and> j = k \<and> triples rest)"
| "triples _ = False"

fun is_block_event :: "event \<Rightarrow> bool" where
  "is_block_event (ContentBlockStart i b) = True"
| "is_block_event (ContentBlockDelta i d) = True"
| "is_block_event (ContentBlockStop i) = True"
| "is_block_event _ = False"

text \<open>A tool call without a function name, for the sample runs.\<close>

definition nameless_call :: OpenAIToolCall where
  "nameless_call = \<lparr>tc_function = Some \<lparr>fn_name = None, fn_arguments = Some ''[1]''\<rparr>\<rparr>"

text \<open>
  \<open>advances s s'\<close>: from \<open>s\<close> to \<open>s'\<close> the queue has grown by whole groups, and if the
  running total was at most \<open>accumulatedOutputTokens\<close> it still is and has not shrunk.
\<close>

definition advances :: "locals \<Rightarrow> locals \<Rightarrow> bool" where
  "advances s s' \<longleftrightarrow>
     (\<exists>more. enqueued s' = enqueued s @ more \<and> triples more)
     \<and> (totalOutputTokens s \<le> accumulatedOutputTokens (world s)
          \<longrightarrow> totalOutputTokens s' \<le> accumulatedOutputTokens (world s')
              \<and> totalOutputTokens s \<le> totalOutputTokens s')"

text \<open>
  \<open>callback_returns p jsonStr\<close>: the payload is one on which the callback returns instead of
  throwing. Lemma \<open>processLine_raises_iff\<close> below shows that this is so whatever the indices
  and the world are.
\<close>

definition callback_returns :: "js \<Rightarrow> string \<Rightarrow> bool" where
  "callback_returns p jsonStr \<longleftrightarrow>
     (case json_parse_chunk p jsonStr of
        None \<Rightarrow> False
      | Some NullValue \<Rightarrow> False
      | Some (Value c) \<Rightarrow>
          (case choices c of
             None \<Rightarrow> True
           | Some [] \<Rightarrow> True
           | Some (None # _) \<Rightarrow> False
           | Some (Some ch # _) \<Rightarrow>
               (case delta ch of
                  None \<Rightarrow> False
                | Some d \<Rightarrow>
                    (case tool_calls d of None \<Rightarrow> True | Some tcs \<Rightarrow> None \<notin> set tcs))))"


text \<open>
  A sample body, \<open>data: {"choices":[{"delta":{"content":"Hi"}}]}\<close>, an empty line and the
  sentinel line; and the delivery of a text one character per read.
\<close>

definition hi_stream :: string where
  "hi_stream = ''data: '' @ hi_payload @ ''\<newline>\<newline>data: [DONE]\<newline>''"

definition one_per_read :: "string \<Rightarrow> string list" where
  "one_per_read s = map (\<lambda>c. [c]) s"


section \<open>Facts about strings\<close>

lemma trim_empty_iff: "trim s = [] \<longleftrightarrow> (\<forall>c\<in>set s. is_ws c)"
proof
  assume h: "trim s = []"
  have "dropWhile is_ws s = []"
  proof (rule ccontr)
    assume ne: "dropWhile is_ws s \<noteq> []"
    then have "\<not> is_ws (hd (dropWhile is_ws s))" by (rule hd_dropWhile)
    moreover have "hd (dropWhile is_ws s) \<in> set (rev (dropWhile is_ws s))" using ne by simp
    moreover from h have "\<forall>c\<in>set (rev (dropWhile is_ws s)). is_ws c"
      by (simp add: trim_def dropWhile_eq_Nil_conv)
    ultimately show False by blast
  qed
  then show "\<forall>c\<in>set s. is_ws c" by (simp add: dropWhile_eq_Nil_conv)
next
  assume "\<forall>c\<in>set s. is_ws c"
  then have d: "dropWhile is_ws s = []" by (simp add: dropWhile_eq_Nil_conv)
  show "trim s = []" unfolding trim_def d by simp
qed

lemma startsWith_data_not_blank: "startsWith line ''data: '' \<Longrightarrow> trim line \<noteq> []"
proof -
  assume "startsWith line ''data: ''"
  then have eq: "take (length ''data: '') line = ''data: ''" by (simp only: startsWith_def)
  have "CHR ''d'' \<in> set ''data: ''" by simp
  with eq have "CHR ''d'' \<in> set (take (length ''data: '') line)" by (simp only:)
  then have "CHR ''d'' \<in> set line" by (rule in_set_takeD)
  moreover have "\<not> is_ws (CHR ''d'')" by (simp add: is_ws_def)
  ultimately show ?thesis by (auto simp: trim_empty_iff)
qed

lemma split_nl_not_Nil: "split_nl s \<noteq> []"
  by (induction s) (auto split: list.splits)

lemma split_nl_no_nl: "CHR 0x0A \<notin> set s \<Longrightarrow> split_nl s = [s]"
  by (induction s) auto


lemma split_nl_Cons_other:
  "c \<noteq> CHR 0x0A \<Longrightarrow> split_nl (c # cs) = (c # hd (split_nl cs)) # tl (split_nl cs)"
  using split_nl_not_Nil [of cs] by (cases "split_nl cs") auto

lemma split_nl_append:
  "split_nl (a @ b) = butlast (split_nl a) @ split_nl (last (split_nl a) @ b)"
proof (induction a)
  case Nil
  show ?case by simp
next
  case (Cons c a)
  show ?case
  proof (cases "c = CHR 0x0A")
    case True
    with Cons show ?thesis by (simp add: split_nl_not_Nil)
  next
    case False
    obtain l ls where sa: "split_nl a = l # ls"
      using split_nl_not_Nil [of a] by (cases "split_nl a") auto
    show ?thesis
    proof (cases ls)
      case Nil
      with sa Cons have "split_nl (a @ b) = split_nl (l @ b)" by simp
      with False sa Nil show ?thesis by (simp add: split_nl_Cons_other)
    next
      case (Cons l2 ls2)
      with sa Cons.IH have "split_nl (a @ b) = l # (butlast ls @ split_nl (last ls @ b))"
        by simp
      with False sa Cons show ?thesis by simp
    qed
  qed
qed

lemma last_split_nl_no_nl: "CHR 0x0A \<notin> set (last (split_nl a))"
proof (induction a)
  case Nil
  show ?case by simp
next
  case (Cons c a)
  obtain l ls where sa: "split_nl a = l # ls"
    using split_nl_not_Nil [of a] by (cases "split_nl a") auto
  with Cons show ?case by (cases ls) auto
qed

lemma pop_split: "pop_or_empty (split_nl s) = last (split_nl s)"
  by (simp add: pop_or_empty_def split_nl_not_Nil)

section \<open>Facts about the line callback\<close>

lemma tool_call_step_skip:
  "function_name toolCall = None \<or> function_arguments toolCall = None
     \<Longrightarrow> tool_call_step p est st toolCall = st"
  by (cases st) (auto simp: tool_call_step_def)

lemma tool_call_step_changes:
  "tool_call_step p est st toolCall \<noteq> st
     \<Longrightarrow> \<exists>n a. function_name toolCall = Some n \<and> function_arguments toolCall = Some a"
  using tool_call_step_skip [of toolCall p est st]
  by (cases "function_name toolCall"; cases "function_arguments toolCall") auto

lemma foldl_tool_call_step_filter:
  "foldl (tool_call_step p est) st tcs
     = foldl (tool_call_step p est) st
         (filter (\<lambda>tc. function_name tc \<noteq> None \<and> function_arguments tc \<noteq> None) tcs)"
proof (induction tcs arbitrary: st)
  case Nil
  show ?case by simp
next
  case (Cons tc tcs)
  show ?case
  proof (cases "function_name tc \<noteq> None \<and> function_arguments tc \<noteq> None")
    case True
    then show ?thesis using Cons.IH by simp
  next
    case False
    then have "tool_call_step p est st tc = st" by (intro tool_call_step_skip) blast
    with False show ?thesis using Cons.IH by auto
  qed
qed

lemma tool_calls_loop_no_null:
  "tool_calls_loop p est (map Some tcs) st = (foldl (tool_call_step p est) st tcs, None)"
  by (induction tcs arbitrary: st) simp_all

lemma tool_calls_loop_null:
  "tool_calls_loop p est (map Some tcs @ None # rest) st
     = (foldl (tool_call_step p est) st tcs, Some TypeError)"
  by (induction tcs arbitrary: st) simp_all

lemma tool_calls_loop_filter:
  "tool_calls_loop p est tcs st
     = tool_calls_loop p est
         (filter (\<lambda>x. case x of None \<Rightarrow> True
                    | Some tc \<Rightarrow> function_name tc \<noteq> None \<and> function_arguments tc \<noteq> None) tcs) st"
proof (induction tcs arbitrary: st)
  case Nil
  show ?case by simp
next
  case (Cons x tcs)
  show ?case
  proof (cases x)
    case None
    then show ?thesis by simp
  next
    case (Some tc)
    show ?thesis
    proof (cases "function_name tc \<noteq> None \<and> function_arguments tc \<noteq> None")
      case True
      with Some show ?thesis using Cons.IH [of "tool_call_step p est st tc"]
        by (simp del: not_None_eq)
    next
      case False
      then have "tool_call_step p est st tc = st" by (intro tool_call_step_skip) blast
      with False Some show ?thesis using Cons.IH [of st] by (simp del: not_None_eq)
    qed
  qed
qed

lemma tool_calls_loop_error:
  "snd (tool_calls_loop p est tcs st) = (if None \<in> set tcs then Some TypeError else None)"
proof (induction tcs arbitrary: st)
  case Nil
  show ?case by simp
next
  case (Cons x tcs)
  then show ?case by (cases x) auto
qed

lemma tool_calls_part_error:
  "snd (tool_calls_part p est d st)
     = (case tool_calls d of None \<Rightarrow> None
        | Some tcs \<Rightarrow> if None \<in> set tcs then Some TypeError else None)"
  by (simp add: tool_calls_part_def tool_calls_loop_error split: option.splits)

lemma processLine_raises_iff:
  "isl (fst (processLine p est jsonStr t u w)) \<longleftrightarrow> \<not> callback_returns p jsonStr"
proof (cases "json_parse_chunk p jsonStr")
  case None
  then show ?thesis by (simp add: processLine_def callback_returns_def)
next
  case (Some pv)
  show ?thesis
  proof (cases pv)
    case NullValue
    with Some show ?thesis by (simp add: processLine_def callback_returns_def)
  next
    case (Value c)
    show ?thesis
    proof (cases "choices c")
      case None
      with Some Value show ?thesis by (simp add: processLine_def callback_returns_def)
    next
      case cs: (Some chs)
      show ?thesis
      proof (cases chs)
        case Nil
        with Some Value cs show ?thesis by (simp add: processLine_def callback_returns_def)
      next
        case (Cons x rest)
        show ?thesis
        proof (cases x)
          case None
          with Some Value cs Cons show ?thesis by (simp add: processLine_def callback_returns_def)
        next
          case ch: (Some ch)
          show ?thesis
          proof (cases "delta ch")
            case None
            with Some Value cs Cons ch show ?thesis
              by (simp add: processLine_def callback_returns_def)
          next
            case d: (Some d)
            obtain st r where tc:
              "tool_calls_part p est d (text_part est d ([], t, u, w)) = (st, r)"
              by (cases "tool_calls_part p est d (text_part est d ([], t, u, w))") auto
            have r: "r = (case tool_calls d of None \<Rightarrow> None
                | Some tcs \<Rightarrow> if None \<in> set tcs then Some TypeError else None)"
              using tool_calls_part_error [of p est d "text_part est d ([], t, u, w)"] tc by simp
            obtain evs ti ui w' where st: "st = (evs, ti, ui, w')" by (cases st) auto
            from Some Value cs Cons ch d tc st r show ?thesis
              by (cases r) (auto simp: processLine_def callback_returns_def split: option.splits)
          qed
        qed
      qed
    qed
  qed
qed


lemma processLine_events:
  assumes "json_parse_chunk p jsonStr = Some (Value c)" and "choices c = Some (Some ch # chs)"
    and "delta ch = Some d"
  shows "processLine p est jsonStr t u w =
     (case tool_calls_part p est d (text_part est d ([], t, u, w)) of
        ((evs, ti, ui, w'), Some e) \<Rightarrow> (Inl e, w')
      | ((evs, ti, ui, w'), None) \<Rightarrow>
          (Inr (Some \<lparr>events = evs, textBlockIndex = ti, toolUseBlockIndex = ui,
                      outputTokens = Some (accumulatedOutputTokens w')\<rparr>), w'))"
  using assms by (simp add: processLine_def)







section \<open>Facts about event sequences\<close>

lemma triples_append: "triples xs \<Longrightarrow> triples ys \<Longrightarrow> triples (xs @ ys)"
  by (induction xs rule: triples.induct) auto

lemma triples_block_events: "triples xs \<Longrightarrow> \<forall>e\<in>set xs. is_block_event e"
  by (induction xs rule: triples.induct) auto

lemma triples_start_followed_aux:
  "triples xs \<Longrightarrow> \<forall>pre. xs = pre @ ContentBlockStart i b # post
     \<longrightarrow> (\<exists>d post'. post = ContentBlockDelta i d # ContentBlockStop i # post')"
proof (induction xs rule: triples.induct)
  case 1
  then show ?case by simp
next
  case (2 i0 b0 j d0 k rest)
  then have ij: "i0 = j" "j = k" and tr: "triples rest" by auto
  show ?case
  proof (intro allI impI)
    fix pre
    assume eq: "ContentBlockStart i0 b0 # ContentBlockDelta j d0 # ContentBlockStop k # rest
      = pre @ ContentBlockStart i b # post"
    show "\<exists>d post'. post = ContentBlockDelta i d # ContentBlockStop i # post'"
    proof (cases pre)
      case Nil
      with eq ij show ?thesis by auto
    next
      case c1: (Cons x1 p1)
      show ?thesis
      proof (cases p1)
        case Nil
        with c1 eq show ?thesis by auto
      next
        case c2: (Cons x2 p2)
        show ?thesis
        proof (cases p2)
          case Nil
          with c1 c2 eq show ?thesis by auto
        next
          case c3: (Cons x3 p3)
          with c1 c2 eq have "rest = p3 @ ContentBlockStart i b # post" by simp
          with 2(1) ij tr show ?thesis by blast
        qed
      qed
    qed
  qed
qed auto

lemma triples_start_followed:
  "triples xs \<Longrightarrow> xs = pre @ ContentBlockStart i b # post
     \<Longrightarrow> \<exists>d post'. post = ContentBlockDelta i d # ContentBlockStop i # post'"
  using triples_start_followed_aux by blast

section \<open>Facts about the loops\<close>

lemma advances_refl: "advances s s"
  by (simp add: advances_def)

lemma advances_trans:
  assumes "advances s s1" and "advances s1 s2"
  shows "advances s s2"
proof -
  from assms obtain m1 m2 where m: "enqueued s1 = enqueued s @ m1" "triples m1"
    "enqueued s2 = enqueued s1 @ m2" "triples m2"
    by (auto simp: advances_def)
  then have "enqueued s2 = enqueued s @ (m1 @ m2)" "triples (m1 @ m2)"
    by (simp_all add: triples_append)
  then have q: "\<exists>more. enqueued s2 = enqueued s @ more \<and> triples more" by blast
  have "totalOutputTokens s2 \<le> accumulatedOutputTokens (world s2)
      \<and> totalOutputTokens s \<le> totalOutputTokens s2"
    if "totalOutputTokens s \<le> accumulatedOutputTokens (world s)"
    using that assms unfolding advances_def by (meson order_trans)
  with q show ?thesis unfolding advances_def by blast
qed

lemma tool_call_step_shape:
  assumes "tool_call_step p est (evs, ti, ui, w) tc = (evs', ti', ui', w')"
  shows "(\<exists>more. evs' = evs @ more \<and> triples more)
     \<and> accumulatedOutputTokens w \<le> accumulatedOutputTokens w'"
  using assms
  by (auto simp: tool_call_step_def processToolUsePart_def generateId_def Let_def
      split: if_splits)

lemma foldl_tool_call_step_shape:
  "foldl (tool_call_step p est) (evs, ti, ui, w) tcs = (evs', ti', ui', w')
     \<Longrightarrow> (\<exists>more. evs' = evs @ more \<and> triples more)
       \<and> accumulatedOutputTokens w \<le> accumulatedOutputTokens w'"
proof (induction tcs arbitrary: evs ti ui w)
  case Nil
  then show ?case by simp
next
  case (Cons tc tcs)
  obtain e1 t1 u1 w1 where st: "tool_call_step p est (evs, ti, ui, w) tc = (e1, t1, u1, w1)"
    by (cases "tool_call_step p est (evs, ti, ui, w) tc") auto
  from tool_call_step_shape [OF st] obtain m1 where
    m1: "e1 = evs @ m1" "triples m1" and a1: "accumulatedOutputTokens w \<le> accumulatedOutputTokens w1"
    by blast
  from Cons.prems st
  have "foldl (tool_call_step p est) (e1, t1, u1, w1) tcs = (evs', ti', ui', w')" by simp
  from Cons.IH [OF this] obtain m2 where
    m2: "evs' = e1 @ m2" "triples m2" and a2: "accumulatedOutputTokens w1 \<le> accumulatedOutputTokens w'"
    by blast
  from m1 m2 have "evs' = evs @ (m1 @ m2)" "triples (m1 @ m2)"
    by (simp_all add: triples_append)
  then have "\<exists>more. evs' = evs @ more \<and> triples more" by blast
  moreover from a1 a2 have "accumulatedOutputTokens w \<le> accumulatedOutputTokens w'" by simp
  ultimately show ?case by simp
qed

lemma text_part_shape:
  assumes "text_part est d (evs, ti, ui, w) = (evs', ti', ui', w')"
  shows "(\<exists>more. evs' = evs @ more \<and> triples more)
     \<and> accumulatedOutputTokens w \<le> accumulatedOutputTokens w'"
  using assms by (auto simp: text_part_def processTextPart_def split: if_splits)

lemma tool_calls_loop_shape:
  "tool_calls_loop p est tcs (evs, ti, ui, w) = ((evs', ti', ui', w'), r)
     \<Longrightarrow> (\<exists>more. evs' = evs @ more \<and> triples more)
       \<and> accumulatedOutputTokens w \<le> accumulatedOutputTokens w'"
proof (induction tcs arbitrary: evs ti ui w)
  case Nil
  then show ?case by simp
next
  case (Cons x tcs)
  show ?case
  proof (cases x)
    case None
    with Cons.prems show ?thesis by simp
  next
    case (Some tc)
    obtain e1 t1 u1 w1 where st: "tool_call_step p est (evs, ti, ui, w) tc = (e1, t1, u1, w1)"
      by (cases "tool_call_step p est (evs, ti, ui, w) tc") auto
    from tool_call_step_shape [OF st] obtain m1 where
      m1: "e1 = evs @ m1" "triples m1"
      and a1: "accumulatedOutputTokens w \<le> accumulatedOutputTokens w1"
      by blast
    from Cons.prems Some st
    have "tool_calls_loop p est tcs (e1, t1, u1, w1) = ((evs', ti', ui', w'), r)" by simp
    from Cons.IH [OF this] obtain m2 where
      m2: "evs' = e1 @ m2" "triples m2"
      and a2: "accumulatedOutputTokens w1 \<le> accumulatedOutputTokens w'"
      by blast
    from m1 m2 have "evs' = evs @ (m1 @ m2)" "triples (m1 @ m2)"
      by (simp_all add: triples_append)
    then have "\<exists>more. evs' = evs @ more \<and> triples more" by blast
    moreover from a1 a2 have "accumulatedOutputTokens w \<le> accumulatedOutputTokens w'" by simp
    ultimately show ?thesis by simp
  qed
qed

text \<open>
  The callback in its three outcomes. Where it reaches the two parts, \<open>callback_run\<close> names
  the delta they work on.
\<close>

lemma processLine_cases:
  obtains (unparsed) "json_parse_chunk p jsonStr = None"
      "processLine p est jsonStr t u w = (Inl SyntaxError, w)"
    | (early) "processLine p est jsonStr t u w = (Inl TypeError, w)"
    | (skip) "processLine p est jsonStr t u w = (Inr None, w)"
    | (run) d where
      "processLine p est jsonStr t u w =
         (case tool_calls_part p est d (text_part est d ([], t, u, w)) of
            ((evs, ti, ui, w'), Some e) \<Rightarrow> (Inl e, w')
          | ((evs, ti, ui, w'), None) \<Rightarrow>
              (Inr (Some \<lparr>events = evs, textBlockIndex = ti, toolUseBlockIndex = ui,
                          outputTokens = Some (accumulatedOutputTokens w')\<rparr>), w'))"
proof (cases "json_parse_chunk p jsonStr")
  case None
  then show ?thesis using unparsed by (simp add: processLine_def)
next
  case (Some pv)
  show ?thesis
  proof (cases pv)
    case NullValue
    with Some show ?thesis using early by (simp add: processLine_def)
  next
    case (Value c)
    show ?thesis
    proof (cases "choices c")
      case None
      with Some Value show ?thesis using skip by (simp add: processLine_def)
    next
      case cs: (Some chs)
      show ?thesis
      proof (cases chs)
        case Nil
        with Some Value cs show ?thesis using skip by (simp add: processLine_def)
      next
        case (Cons x rest)
        show ?thesis
        proof (cases x)
          case None
          with Some Value cs Cons show ?thesis using early by (simp add: processLine_def)
        next
          case ch: (Some ch)
          show ?thesis
          proof (cases "delta ch")
            case None
            with Some Value cs Cons ch show ?thesis using early by (simp add: processLine_def)
          next
            case d: (Some d)
            with Some Value cs Cons ch show ?thesis
              using run [of d] processLine_events [of p jsonStr c ch rest d est t u w] by simp
          qed
        qed
      qed
    qed
  qed
qed

lemma callback_run_shape:
  assumes "tool_calls_part p est d (text_part est d ([], t, u, w)) = ((evs, ti, ui, w'), r)"
  shows "triples evs \<and> accumulatedOutputTokens w \<le> accumulatedOutputTokens w'
     \<and> (r = None \<or> r = Some TypeError)"
proof -
  obtain e1 t1 u1 w1 where tp: "text_part est d ([], t, u, w) = (e1, t1, u1, w1)"
    by (cases "text_part est d ([], t, u, w)") auto
  from text_part_shape [OF tp] have s1: "triples e1"
    "accumulatedOutputTokens w \<le> accumulatedOutputTokens w1" by auto
  have s2: "(\<exists>more. evs = e1 @ more \<and> triples more)
     \<and> accumulatedOutputTokens w1 \<le> accumulatedOutputTokens w'"
  proof (cases "tool_calls d")
    case None
    with assms tp show ?thesis by (simp add: tool_calls_part_def)
  next
    case (Some tcs)
    with assms tp have "tool_calls_loop p est tcs (e1, t1, u1, w1) = ((evs, ti, ui, w'), r)"
      by (simp add: tool_calls_part_def)
    from tool_calls_loop_shape [OF this] show ?thesis .
  qed
  have "r = None \<or> r = Some TypeError"
    using tool_calls_part_error [of p est d "text_part est d ([], t, u, w)"] assms
    by (auto split: option.splits if_splits)
  with s1 s2 show ?thesis by (auto simp: triples_append)
qed

lemma processLine_result_shape:
  assumes "processLine p est jsonStr t u w = (Inr (Some r), w')"
  shows "triples (events r) \<and> outputTokens r = Some (accumulatedOutputTokens w')
     \<and> accumulatedOutputTokens w \<le> accumulatedOutputTokens w'"
proof (cases rule: processLine_cases [of p jsonStr est t u w])
  case unparsed
  with assms show ?thesis by simp
next
  case early
  with assms show ?thesis by simp
next
  case skip
  with assms show ?thesis by simp
next
  case (run d)
  obtain evs ti ui w2 r2 where
    tc: "tool_calls_part p est d (text_part est d ([], t, u, w)) = ((evs, ti, ui, w2), r2)"
    by (cases "tool_calls_part p est d (text_part est d ([], t, u, w))") auto
  from callback_run_shape [OF tc] run tc assms show ?thesis
    by (cases r2) auto
qed

lemma processLine_none: "processLine p est jsonStr t u w = (Inr None, w') \<Longrightarrow> w' = w"
proof (cases rule: processLine_cases [of p jsonStr est t u w])
  case (run d)
  assume a: "processLine p est jsonStr t u w = (Inr None, w')"
  obtain evs ti ui w2 r2 where
    tc: "tool_calls_part p est d (text_part est d ([], t, u, w)) = ((evs, ti, ui, w2), r2)"
    by (cases "tool_calls_part p est d (text_part est d ([], t, u, w))") auto
  with run a show ?thesis by (cases r2) auto
qed auto

lemma processLine_raise:
  assumes "processLine p est jsonStr t u w = (Inl e, w')"
  shows "accumulatedOutputTokens w \<le> accumulatedOutputTokens w'
     \<and> (e = SyntaxError \<or> e = TypeError) \<and> (e = SyntaxError \<longrightarrow> w' = w)"
proof (cases rule: processLine_cases [of p jsonStr est t u w])
  case unparsed
  with assms show ?thesis by simp
next
  case early
  with assms show ?thesis by simp
next
  case skip
  with assms show ?thesis by simp
next
  case (run d)
  obtain evs ti ui w2 r2 where
    tc: "tool_calls_part p est d (text_part est d ([], t, u, w)) = ((evs, ti, ui, w2), r2)"
    by (cases "tool_calls_part p est d (text_part est d ([], t, u, w))") auto
  from callback_run_shape [OF tc] run tc assms show ?thesis
    by (cases r2) auto
qed

lemma take_tokens_accumulated:
  assumes "outputTokens r = Some n" and "cur \<le> n"
  shows "take_tokens r cur = n"
  using assms by (simp add: take_tokens_def)

lemma line_step_advances:
  assumes "processLine p est jsonStr (text_index s) (tool_index s) (world s) = (Inr (Some r), w')"
  shows "advances s (s\<lparr>text_index := textBlockIndex r,
          tool_index := toolUseBlockIndex r,
          totalOutputTokens := take_tokens r (totalOutputTokens s),
          enqueued := enqueued s @ events r,
          world := w'\<rparr>)"
  using processLine_result_shape [OF assms]
  by (auto simp: advances_def take_tokens_accumulated)

lemma raise_step_advances:
  assumes "processLine p est jsonStr (text_index s) (tool_index s) (world s) = (Inl e, w')"
  shows "advances s (s\<lparr>world := w'\<rparr>)"
  using processLine_raise [OF assms] by (auto simp: advances_def)

lemma process_lines_advances:
  "advances s (fst (process_lines (processLine p est) ls s))"
proof (induction ls arbitrary: s)
  case Nil
  show ?case by (simp add: advances_refl)
next
  case (Cons line rest)
  let ?call = "processLine p est (slice6 line) (text_index s) (tool_index s) (world s)"
  show ?case
  proof (cases "trim line = [] \<or> \<not> startsWith line ''data: '' \<or> slice6 line = ''[DONE]''")
    case True
    then show ?thesis using Cons.IH [of s] by auto
  next
    case False
    obtain res w' where call: "?call = (res, w')" by (cases ?call) auto
    show ?thesis
    proof (cases res)
      case (Inl e)
      with call have "?call = (Inl e, w')" by simp
      from raise_step_advances [OF this] False call Inl show ?thesis by simp
    next
      case (Inr ro)
      show ?thesis
      proof (cases ro)
        case None
        with call Inr processLine_none [of p est "slice6 line" "text_index s" "tool_index s" "world s" w']
        have "w' = world s" by simp
        with False call Inr None show ?thesis using Cons.IH [of s] by simp
      next
        case (Some r)
        let ?s1 = "s\<lparr>text_index := textBlockIndex r,
          tool_index := toolUseBlockIndex r,
          totalOutputTokens := take_tokens r (totalOutputTokens s),
          enqueued := enqueued s @ events r,
          world := w'\<rparr>"
        from call Inr Some have c: "?call = (Inr (Some r), w')" by simp
        have "advances s ?s1" by (rule line_step_advances [OF c])
        moreover have "advances ?s1 (fst (process_lines (processLine p est) rest ?s1))"
          by (rule Cons.IH)
        ultimately have "advances s (fst (process_lines (processLine p est) rest ?s1))"
          by (rule advances_trans)
        with False c show ?thesis by simp
      qed
    qed
  qed
qed

lemma advances_buffer: "advances s (s\<lparr>buffer := b\<rparr>)"
  by (simp add: advances_def)

lemma read_loop_advances:
  "advances s (fst (read_loop (processLine p est) vs e s))"
proof (induction vs arbitrary: s)
  case Nil
  show ?case by (cases e) (simp_all add: advances_refl)
next
  case (Cons v vs)
  let ?lines = "split_nl (buffer s @ v)"
  let ?s1 = "s\<lparr>buffer := pop_or_empty ?lines\<rparr>"
  obtain s2 err where pr: "process_lines (processLine p est) (after_pop ?lines) ?s1 = (s2, err)"
    by (cases "process_lines (processLine p est) (after_pop ?lines) ?s1") auto
  have "advances ?s1 s2"
    using process_lines_advances [of ?s1 p est "after_pop ?lines"] pr by simp
  with advances_buffer [of s "pop_or_empty ?lines"] have a2: "advances s s2"
    by (rule advances_trans)
  show ?case
  proof (cases err)
    case None
    have "advances s2 (fst (read_loop (processLine p est) vs e s2))" by (rule Cons.IH)
    with a2 have "advances s (fst (read_loop (processLine p est) vs e s2))"
      by (rule advances_trans)
    with pr None show ?thesis by (simp add: Let_def)
  next
    case (Some x)
    with pr a2 show ?thesis by (simp add: Let_def)
  qed
qed

lemma flush_buffer_advances:
  assumes "flush_buffer (processLine p est) s = Inr s'"
  shows "advances s s'"
proof (cases "trim (buffer s) \<noteq> []")
  case False
  with assms show ?thesis by (simp add: flush_buffer_def advances_refl)
next
  case True
  let ?call = "processLine p est (slice6 (buffer s)) (text_index s) (tool_index s) (world s)"
  obtain res w' where call: "?call = (res, w')" by (cases ?call) auto
  show ?thesis
  proof (cases res)
    case (Inl e)
    with True call assms show ?thesis by (simp add: flush_buffer_def)
  next
    case (Inr ro)
    show ?thesis
    proof (cases ro)
      case None
      with call Inr
        processLine_none [of p est "slice6 (buffer s)" "text_index s" "tool_index s" "world s" w']
      have "w' = world s" by simp
      with True call Inr None assms show ?thesis by (auto simp: flush_buffer_def advances_refl)
    next
      case (Some r)
      with call Inr have c: "?call = (Inr (Some r), w')" by simp
      from processLine_result_shape [OF c] True c assms show ?thesis
        by (auto simp: flush_buffer_def advances_def take_tokens_accumulated)
    qed
  qed
qed

lemma finally_block_emitted:
  "emitted (finally_block pl req te r) =
     enqueued (final (finally_block pl req te r)) @
       (if closed (finally_block pl req te r)
        then [MessageStop (final_usage req te
                (totalOutputTokens (final (finally_block pl req te r))))]
        else [])"
  by (cases r) (auto simp: finally_block_def sendMessageStop_def split: sum.splits)

lemma finally_block_closed:
  "closed (finally_block pl req te (s, pending)) \<longleftrightarrow> (\<exists>s'. flush_buffer pl s = Inr s')"
  by (auto simp: finally_block_def split: sum.splits)

lemma finally_block_advances:
  "advances s (final (finally_block (processLine p est) req te (s, pending)))"
  using flush_buffer_advances [of p est s]
  by (auto simp: finally_block_def advances_refl split: sum.splits)

lemma convert_unfold:
  "convertStreamResponse p est (Some up) req w =
     finally_block (processLine p est) req (Some est)
       (read_loop (processLine p est) (reads up) (ending up)
          (start_locals (MessageStart (random_id p (ids_drawn w)))
             (w\<lparr>accumulatedOutputTokens := 0, ids_drawn := ids_drawn w + 1\<rparr>)))"
  by (simp add: convertStreamResponse_def processProviderStream_def sendMessageStart_def
      generateId_def)

lemma convert_shape:
  fixes p est up req w
  defines "out \<equiv> convertStreamResponse p est (Some up) req w"
  shows "\<exists>bs. triples bs
     \<and> enqueued (final out) = MessageStart (random_id p (ids_drawn w)) # bs
     \<and> emitted out = MessageStart (random_id p (ids_drawn w)) # bs @
         (if closed out
          then [MessageStop (final_usage req (Some est) (totalOutputTokens (final out)))]
          else [])
     \<and> totalOutputTokens (final out) \<le> accumulatedOutputTokens (world (final out))"
proof -
  let ?pl = "processLine p est"
  let ?s0 = "start_locals (MessageStart (random_id p (ids_drawn w)))
             (w\<lparr>accumulatedOutputTokens := 0, ids_drawn := ids_drawn w + 1\<rparr>)"
  obtain s pending where rl: "read_loop ?pl (reads up) (ending up) ?s0 = (s, pending)"
    by (cases "read_loop ?pl (reads up) (ending up) ?s0") auto
  have out: "out = finally_block ?pl req (Some est) (s, pending)"
    unfolding out_def convert_unfold rl ..
  have "advances ?s0 s" using read_loop_advances [of ?s0 p est "reads up" "ending up"] rl by simp
  moreover have "advances s (final out)" unfolding out by (rule finally_block_advances)
  ultimately have adv: "advances ?s0 (final out)" by (rule advances_trans)
  then obtain bs where bs: "enqueued (final out) = enqueued ?s0 @ bs" "triples bs"
    by (auto simp: advances_def)
  from adv have tot: "totalOutputTokens (final out) \<le> accumulatedOutputTokens (world (final out))"
    by (simp add: advances_def start_locals_def)
  from bs have enq: "enqueued (final out) = MessageStart (random_id p (ids_drawn w)) # bs"
    by (simp add: start_locals_def)
  have "emitted out = enqueued (final out) @
       (if closed out
        then [MessageStop (final_usage req (Some est) (totalOutputTokens (final out)))]
        else [])"
    unfolding out by (rule finally_block_emitted)
  with enq bs tot show ?thesis by auto
qed





lemma process_lines_skipped:
  assumes "startsWith line ''data: ''" and "slice6 line \<noteq> ''[DONE]''"
    and "pl (slice6 line) (text_index s) (tool_index s) (world s) = (Inr None, world s)"
  shows "process_lines pl (line # rest) s = process_lines pl rest s"
  using assms startsWith_data_not_blank [OF assms(1)] by simp

lemma process_lines_raised:
  assumes "startsWith line ''data: ''" and "slice6 line \<noteq> ''[DONE]''"
    and "pl (slice6 line) (text_index s) (tool_index s) (world s) = (Inl err, w)"
  shows "process_lines pl (line # rest) s = (s\<lparr>world := w\<rparr>, Some err)"
  using assms startsWith_data_not_blank [OF assms(1)] by simp

lemma finally_block_request:
  "closed (finally_block pl r1 te x) = closed (finally_block pl r2 te x)
   \<and> raised (finally_block pl r1 te x) = raised (finally_block pl r2 te x)
   \<and> final (finally_block pl r1 te x) = final (finally_block pl r2 te x)"
  by (cases x) (auto simp: finally_block_def split: sum.splits)

lemma convert_request:
  "closed (convertStreamResponse p est body r1 w) = closed (convertStreamResponse p est body r2 w)
   \<and> raised (convertStreamResponse p est body r1 w) = raised (convertStreamResponse p est body r2 w)
   \<and> final (convertStreamResponse p est body r1 w) = final (convertStreamResponse p est body r2 w)"
proof (cases body)
  case None
  then show ?thesis by (simp add: convertStreamResponse_def processProviderStream_def)
next
  case (Some up)
  then show ?thesis unfolding Some convert_unfold by (rule_tac finally_block_request)
qed

lemma convert_block_shape:
  "\<exists>bs. (\<forall>e\<in>set bs. is_block_event e)
     \<and> emitted (convertStreamResponse p est (Some up) req w)
         = MessageStart (random_id p (ids_drawn w)) # bs @
           (if closed (convertStreamResponse p est (Some up) req w)
            then [MessageStop (final_usage req (Some est)
                    (totalOutputTokens
                       (final (convertStreamResponse p est (Some up) req w))))]
            else [])"
  using convert_shape [of p est up req w] triples_block_events by metis









lemma process_lines_append:
  "process_lines pl (xs @ ys) s =
     (case process_lines pl xs s of
        (s', Some err) \<Rightarrow> (s', Some err)
      | (s', None) \<Rightarrow> process_lines pl ys s')"
proof (induction xs arbitrary: s)
  case Nil
  show ?case by simp
next
  case (Cons line rest)
  let ?call = "pl (slice6 line) (text_index s) (tool_index s) (world s)"
  show ?case
  proof (cases "trim line = [] \<or> \<not> startsWith line ''data: '' \<or> slice6 line = ''[DONE]''")
    case True
    then show ?thesis using Cons.IH [of s] by auto
  next
    case False
    obtain res w' where call: "?call = (res, w')" by (cases ?call) auto
    show ?thesis
    proof (cases res)
      case (Inl e)
      with False call show ?thesis by simp
    next
      case (Inr ro)
      with False call show ?thesis by (cases ro) (simp_all add: Cons.IH)
    qed
  qed
qed

lemma buffer_world_commute:
  "s\<lparr>buffer := b, world := w\<rparr> = s\<lparr>world := w, buffer := b\<rparr>"
  by (cases s) simp

lemma buffer_result_commute:
  "s\<lparr>buffer := b, text_index := t, tool_index := u, totalOutputTokens := n,
      enqueued := q, world := w\<rparr>
   = s\<lparr>text_index := t, tool_index := u, totalOutputTokens := n,
      enqueued := q, world := w, buffer := b\<rparr>"
  by (cases s) simp

lemma process_lines_buffer:
  "process_lines pl ls (s\<lparr>buffer := b\<rparr>) =
     (case process_lines pl ls s of (s', err) \<Rightarrow> (s'\<lparr>buffer := b\<rparr>, err))"
proof (induction ls arbitrary: s)
  case Nil
  show ?case by simp
next
  case (Cons line rest)
  let ?call = "pl (slice6 line) (text_index s) (tool_index s) (world s)"
  show ?case
  proof (cases "trim line = [] \<or> \<not> startsWith line ''data: '' \<or> slice6 line = ''[DONE]''")
    case True
    then show ?thesis using Cons.IH [of s] by auto
  next
    case False
    obtain res w' where call: "?call = (res, w')" by (cases ?call) auto
    show ?thesis
    proof (cases res)
      case (Inl e)
      with False call show ?thesis by simp
    next
      case (Inr ro)
      show ?thesis
      proof (cases ro)
        case None
        with False call Inr Cons.IH [of "s\<lparr>world := w'\<rparr>"] show ?thesis
          by (simp add: buffer_world_commute)
      next
        case (Some r)
        with False call Inr
          Cons.IH [of "s\<lparr>text_index := textBlockIndex r,
                     tool_index := toolUseBlockIndex r,
                     totalOutputTokens := take_tokens r (totalOutputTokens s),
                     enqueued := enqueued s @ events r,
                     world := w'\<rparr>"]
        show ?thesis by (simp add: buffer_result_commute)
      qed
    qed
  qed
qed


lemma read_one:
  "read_loop pl [v] e s =
     (case process_lines pl (butlast (split_nl (buffer s @ v)))
             (s\<lparr>buffer := last (split_nl (buffer s @ v))\<rparr>) of
        (s', Some err) \<Rightarrow> (s', Some err)
      | (s', None) \<Rightarrow> read_loop pl [] e s')"
  by (simp add: Let_def after_pop_def pop_split)

lemma read_loop_one_chunk:
  assumes "CHR 0x0A \<notin> set (buffer s)"
    and "snd (process_lines pl (butlast (split_nl (buffer s @ concat vs))) s) = None"
  shows "read_loop pl vs e s = read_loop pl [concat vs] e s"
  using assms
proof (induction vs arbitrary: s)
  case Nil
  have "split_nl (buffer s) = [buffer s]" using Nil.prems(1) by (rule split_nl_no_nl)
  then show ?case by (simp add: Let_def after_pop_def pop_or_empty_def)
next
  case (Cons v vs)
  let ?V = "concat vs"
  let ?L1 = "split_nl (buffer s @ v)"
  let ?r1 = "last ?L1"
  let ?L2 = "split_nl (?r1 @ ?V)"
  have whole: "split_nl (buffer s @ concat (v # vs)) = butlast ?L1 @ ?L2"
    using split_nl_append [of "buffer s @ v" ?V] by simp
  have bl: "butlast (butlast ?L1 @ ?L2) = butlast ?L1 @ butlast ?L2"
    "last (butlast ?L1 @ ?L2) = last ?L2"
    by (simp_all add: butlast_append split_nl_not_Nil)
  obtain s1 r1 where p1: "process_lines pl (butlast ?L1) s = (s1, r1)"
    by (cases "process_lines pl (butlast ?L1) s") auto
  have all: "snd (process_lines pl (butlast ?L1 @ butlast ?L2) s) = None"
    using Cons.prems(2) unfolding whole bl .
  have r1: "r1 = None"
    using all p1 by (cases r1) (simp_all add: process_lines_append)
  have p2: "snd (process_lines pl (butlast ?L2) s1) = None"
    using all p1 r1 by (simp add: process_lines_append)
  have lhs: "read_loop pl (v # vs) e s = read_loop pl vs e (s1\<lparr>buffer := ?r1\<rparr>)"
    using p1 r1 by (simp add: Let_def after_pop_def pop_split process_lines_buffer)
  have nl: "CHR 0x0A \<notin> set (buffer (s1\<lparr>buffer := ?r1\<rparr>))"
    by (simp add: last_split_nl_no_nl)
  have hyp: "snd (process_lines pl
      (butlast (split_nl (buffer (s1\<lparr>buffer := ?r1\<rparr>) @ ?V))) (s1\<lparr>buffer := ?r1\<rparr>)) = None"
    using p2 by (auto simp: process_lines_buffer split: prod.splits)
  have ih: "read_loop pl vs e (s1\<lparr>buffer := ?r1\<rparr>) = read_loop pl [?V] e (s1\<lparr>buffer := ?r1\<rparr>)"
    by (rule Cons.IH [OF nl hyp])
  have a: "read_loop pl [?V] e (s1\<lparr>buffer := ?r1\<rparr>) =
     (case process_lines pl (butlast ?L2) (s1\<lparr>buffer := last ?L2\<rparr>) of
        (s', Some err) \<Rightarrow> (s', Some err)
      | (s', None) \<Rightarrow> read_loop pl [] e s')"
    by (subst read_one) simp
  have "process_lines pl (butlast ?L1 @ butlast ?L2) (s\<lparr>buffer := last ?L2\<rparr>)
      = process_lines pl (butlast ?L2) (s1\<lparr>buffer := last ?L2\<rparr>)"
    using p1 r1 by (simp add: process_lines_append process_lines_buffer)
  then have b: "read_loop pl [concat (v # vs)] e s =
     (case process_lines pl (butlast ?L2) (s1\<lparr>buffer := last ?L2\<rparr>) of
        (s', Some err) \<Rightarrow> (s', Some err)
      | (s', None) \<Rightarrow> read_loop pl [] e s')"
    unfolding read_one whole bl by simp
  from lhs ih a b show ?case by simp
qed

text \<open>
  As long as no \<open>TypeError\<close> is thrown, the running total and \<open>accumulatedOutputTokens\<close>
  stay equal.
\<close>

lemma process_lines_in_step:
  assumes "totalOutputTokens s = accumulatedOutputTokens (world s)"
    and "process_lines (processLine p est) ls s = (s', r)" and "r \<noteq> Some TypeError"
  shows "totalOutputTokens s' = accumulatedOutputTokens (world s')"
  using assms
proof (induction ls arbitrary: s)
  case Nil
  then show ?case by simp
next
  case (Cons line rest)
  let ?call = "processLine p est (slice6 line) (text_index s) (tool_index s) (world s)"
  show ?case
  proof (cases "trim line = [] \<or> \<not> startsWith line ''data: '' \<or> slice6 line = ''[DONE]''")
    case True
    with Cons.prems(2) have "process_lines (processLine p est) rest s = (s', r)"
      by (auto split: if_splits)
    from Cons.IH [OF Cons.prems(1) this Cons.prems(3)] show ?thesis .
  next
    case False
    obtain res w' where call: "?call = (res, w')" by (cases ?call) auto
    show ?thesis
    proof (cases res)
      case (Inl e)
      with False call Cons.prems(2) have sr: "s' = s\<lparr>world := w'\<rparr>" "r = Some e" by auto
      with Cons.prems(3) have "e \<noteq> TypeError" by simp
      with processLine_raise [of p est "slice6 line" "text_index s" "tool_index s" "world s" e w']
        call Inl
      have "w' = world s" by auto
      with sr Cons.prems(1) show ?thesis by simp
    next
      case (Inr ro)
      show ?thesis
      proof (cases ro)
        case None
        with call Inr
          processLine_none [of p est "slice6 line" "text_index s" "tool_index s" "world s" w']
        have "w' = world s" by simp
        with False call Inr None Cons.prems(2)
        have "process_lines (processLine p est) rest s = (s', r)" by simp
        from Cons.IH [OF Cons.prems(1) this Cons.prems(3)] show ?thesis .
      next
        case (Some res1)
        let ?s1 = "s\<lparr>text_index := textBlockIndex res1,
          tool_index := toolUseBlockIndex res1,
          totalOutputTokens := take_tokens res1 (totalOutputTokens s),
          enqueued := enqueued s @ events res1,
          world := w'\<rparr>"
        from call Inr Some have c: "?call = (Inr (Some res1), w')" by simp
        from processLine_result_shape [OF c] Cons.prems(1)
        have inv: "totalOutputTokens ?s1 = accumulatedOutputTokens (world ?s1)"
          by (simp add: take_tokens_accumulated)
        from False c Cons.prems(2)
        have "process_lines (processLine p est) rest ?s1 = (s', r)" by simp
        from Cons.IH [OF inv this Cons.prems(3)] show ?thesis .
      qed
    qed
  qed
qed

lemma read_loop_in_step:
  assumes "totalOutputTokens s = accumulatedOutputTokens (world s)"
    and "read_loop (processLine p est) vs e s = (s', r)" and "r \<noteq> Some TypeError"
  shows "totalOutputTokens s' = accumulatedOutputTokens (world s')"
  using assms
proof (induction vs arbitrary: s)
  case Nil
  then show ?case by (cases e) auto
next
  case (Cons v vs)
  let ?lines = "split_nl (buffer s @ v)"
  let ?s1 = "s\<lparr>buffer := pop_or_empty ?lines\<rparr>"
  obtain s2 err where pr: "process_lines (processLine p est) (after_pop ?lines) ?s1 = (s2, err)"
    by (cases "process_lines (processLine p est) (after_pop ?lines) ?s1") auto
  have i1: "totalOutputTokens ?s1 = accumulatedOutputTokens (world ?s1)"
    using Cons.prems(1) by simp
  show ?case
  proof (cases err)
    case None
    from process_lines_in_step [OF i1 pr] None
    have i2: "totalOutputTokens s2 = accumulatedOutputTokens (world s2)" by simp
    from Cons.prems(2) pr None have "read_loop (processLine p est) vs e s2 = (s', r)"
      by (simp add: Let_def)
    from Cons.IH [OF i2 this Cons.prems(3)] show ?thesis .
  next
    case (Some x)
    with Cons.prems(2) pr have "s' = s2" "r = Some x" by (simp_all add: Let_def)
    with process_lines_in_step [OF i1 pr] Some Cons.prems(3) show ?thesis by simp
  qed
qed

lemma flush_buffer_in_step:
  assumes "totalOutputTokens s = accumulatedOutputTokens (world s)"
    and "flush_buffer (processLine p est) s = Inr s'"
  shows "totalOutputTokens s' = accumulatedOutputTokens (world s')"
proof (cases "trim (buffer s) \<noteq> []")
  case False
  with assms show ?thesis by (simp add: flush_buffer_def)
next
  case True
  let ?call = "processLine p est (slice6 (buffer s)) (text_index s) (tool_index s) (world s)"
  obtain res w' where call: "?call = (res, w')" by (cases ?call) auto
  show ?thesis
  proof (cases res)
    case (Inl e)
    with True call assms show ?thesis by (simp add: flush_buffer_def)
  next
    case (Inr ro)
    show ?thesis
    proof (cases ro)
      case None
      with call Inr
        processLine_none [of p est "slice6 (buffer s)" "text_index s" "tool_index s" "world s" w']
      have "w' = world s" by simp
      with True call Inr None assms show ?thesis by (auto simp: flush_buffer_def)
    next
      case (Some r)
      with call Inr have c: "?call = (Inr (Some r), w')" by simp
      from processLine_result_shape [OF c] True c assms show ?thesis
        by (auto simp: flush_buffer_def take_tokens_accumulated)
    qed
  qed
qed

lemma convert_in_step:
  assumes "closed (convertStreamResponse p est (Some up) req w)"
    and "raised (convertStreamResponse p est (Some up) req w) \<noteq> Some TypeError"
  shows "totalOutputTokens (final (convertStreamResponse p est (Some up) req w))
     = accumulatedOutputTokens (world (final (convertStreamResponse p est (Some up) req w)))"
proof -
  let ?pl = "processLine p est"
  let ?s0 = "start_locals (MessageStart (random_id p (ids_drawn w)))
             (w\<lparr>accumulatedOutputTokens := 0, ids_drawn := ids_drawn w + 1\<rparr>)"
  obtain s pending where rl: "read_loop ?pl (reads up) (ending up) ?s0 = (s, pending)"
    by (cases "read_loop ?pl (reads up) (ending up) ?s0") auto
  have out: "convertStreamResponse p est (Some up) req w
      = finally_block ?pl req (Some est) (s, pending)"
    unfolding convert_unfold rl ..
  from assms(1) obtain s' where fl: "flush_buffer ?pl s = Inr s'"
    unfolding out finally_block_closed by blast
  with assms(2) have pend: "pending \<noteq> Some TypeError" and fin: "final (finally_block ?pl req (Some est) (s, pending)) = s'"
    unfolding out by (simp_all add: finally_block_def)
  have "totalOutputTokens ?s0 = accumulatedOutputTokens (world ?s0)"
    by (simp add: start_locals_def)
  from read_loop_in_step [OF this rl pend]
  have "totalOutputTokens s = accumulatedOutputTokens (world s)" .
  from flush_buffer_in_step [OF this fl] show ?thesis unfolding out fin .
qed





text \<open>The same for any callback: the loop over the lines stops only where the callback throws.\<close>

lemma process_lines_returns:
  assumes "\<forall>l\<in>set ls. startsWith l ''data: '' \<and> slice6 l \<noteq> ''[DONE]''
      \<longrightarrow> (\<forall>t u w0. \<not> isl (fst (pl (slice6 l) t u w0)))"
  shows "snd (process_lines pl ls s) = None"
  using assms
proof (induction ls arbitrary: s)
  case Nil
  show ?case by simp
next
  case (Cons line rest)
  from Cons.prems have rest: "\<forall>l\<in>set rest. startsWith l ''data: '' \<and> slice6 l \<noteq> ''[DONE]''
      \<longrightarrow> (\<forall>t u w0. \<not> isl (fst (pl (slice6 l) t u w0)))" by simp
  show ?case
  proof (cases "trim line = [] \<or> \<not> startsWith line ''data: '' \<or> slice6 line = ''[DONE]''")
    case True
    then show ?thesis using Cons.IH [OF rest, of s] by auto
  next
    case False
    with Cons.prems
    have "\<not> isl (fst (pl (slice6 line) (text_index s) (tool_index s) (world s)))" by auto
    then obtain ro w' where
      call: "pl (slice6 line) (text_index s) (tool_index s) (world s) = (Inr ro, w')"
      by (metis isl_def prod.collapse sum.collapse(2))
    with False show ?thesis by (cases ro) (simp_all add: Cons.IH [OF rest])
  qed
qed

lemma provider_stream_one_chunk:
  assumes "\<forall>l\<in>set (butlast (split_nl (concat vs))).
      startsWith l ''data: '' \<and> slice6 l \<noteq> ''[DONE]''
        \<longrightarrow> (\<forall>t u w0. \<not> isl (fst (pl (slice6 l) t u w0)))"
  shows "processProviderStream p (Some \<lparr>reads = vs, ending = e\<rparr>) pl req te w
     = processProviderStream p (Some \<lparr>reads = [concat vs], ending = e\<rparr>) pl req te w"
proof -
  obtain ev w' where st: "sendMessageStart p w = (ev, w')"
    by (cases "sendMessageStart p w") auto
  let ?s0 = "start_locals ev w'"
  have b0: "buffer ?s0 = []" by (simp add: start_locals_def)
  have nl: "CHR 0x0A \<notin> set (buffer ?s0)" unfolding b0 by simp
  have "snd (process_lines pl (butlast (split_nl (concat vs))) ?s0) = None"
    using assms by (rule process_lines_returns)
  then have nr: "snd (process_lines pl (butlast (split_nl (buffer ?s0 @ concat vs))) ?s0) = None"
    unfolding b0 by simp
  have "read_loop pl vs e ?s0 = read_loop pl [concat vs] e ?s0"
    using nl nr by (rule read_loop_one_chunk)
  then show ?thesis by (simp add: processProviderStream_def st)
qed

section \<open>The claims\<close>

subsection \<open>C1: a line whose payload cannot be parsed\<close>

text \<open>
  C1 says that a line whose payload cannot be parsed is skipped and that the stream goes on
  with the lines after it. The callback calls \<open>JSON.parse\<close> on the payload and nothing
  catches what it throws: in the sample stream below the line \<open>data: BAD\<close> ends the read
  loop, and the well-formed line after it, which alone gives a text group, gives nothing.
\<close>

theorem C1_malformed_line_counterexample:
  "json_parse_chunk sample_js ''BAD'' = None
   \<and> emitted (convertStreamResponse sample_js sample_est
        (body_of [''data: BAD\<newline>data: '' @ hi_payload @ ''\<newline>'']) None fresh_world)
       = [MessageStart ''id'', MessageStop None]
   \<and> raised (convertStreamResponse sample_js sample_est
        (body_of [''data: BAD\<newline>data: '' @ hi_payload @ ''\<newline>'']) None fresh_world)
       = Some SyntaxError
   \<and> emitted (convertStreamResponse sample_js sample_est
        (body_of [''data: '' @ hi_payload @ ''\<newline>'']) None fresh_world)
       = [MessageStart ''id'', ContentBlockStart 0 (TextBlock []),
          ContentBlockDelta 0 (TextDelta ''Hi''), ContentBlockStop 0, MessageStop None]"
  by code_simp

text \<open>
  C1 as amended. An actionable line whose payload parses to a chunk without choices (the field
  absent, or an empty list) is skipped: the locals stay as they are and the loop goes on with
  the next line. An actionable line whose payload is not JSON is not skipped: the line loop
  stops there with a \<open>SyntaxError\<close>, the locals as they were before the line, and no later
  line of the read is processed.
\<close>

theorem C1_amended_no_choices_skipped_malformed_raises:
  assumes "startsWith line ''data: ''" and "slice6 line \<noteq> ''[DONE]''"
  shows "(json_parse_chunk p (slice6 line) = Some (Value c)
            \<and> (choices c = None \<or> choices c = Some [])
            \<longrightarrow> process_lines (processLine p est) (line # rest) s
                = process_lines (processLine p est) rest s)
       \<and> (json_parse_chunk p (slice6 line) = None
            \<longrightarrow> process_lines (processLine p est) (line # rest) s = (s, Some SyntaxError))"
proof (intro conjI impI)
  assume a: "json_parse_chunk p (slice6 line) = Some (Value c)
      \<and> (choices c = None \<or> choices c = Some [])"
  then have "processLine p est (slice6 line) (text_index s) (tool_index s) (world s)
      = (Inr None, world s)"
    by (auto simp: processLine_def)
  from process_lines_skipped [where pl = "processLine p est", OF assms this]
  show "process_lines (processLine p est) (line # rest) s
      = process_lines (processLine p est) rest s" .
next
  assume "json_parse_chunk p (slice6 line) = None"
  then have "processLine p est (slice6 line) (text_index s) (tool_index s) (world s)
      = (Inl SyntaxError, world s)"
    by (simp add: processLine_def)
  from process_lines_raised [where pl = "processLine p est", OF assms this]
  show "process_lines (processLine p est) (line # rest) s = (s, Some SyntaxError)" by simp
qed

text \<open>The two cases at the sample lines \<open>data: {"choices":[]}\<close> and \<open>data: BAD\<close>.\<close>

theorem C1_amended_witness:
  "startsWith (''data: '' @ no_choices_payload) ''data: ''
   \<and> json_parse_chunk sample_js (slice6 (''data: '' @ no_choices_payload))
       = Some (Value no_choices_chunk)
   \<and> choices no_choices_chunk = Some []
   \<and> process_lines (processLine sample_js sample_est)
        [''data: '' @ no_choices_payload, ''data: '' @ hi_payload]
        (start_locals (MessageStart ''id'') fresh_world)
       = process_lines (processLine sample_js sample_est) [''data: '' @ hi_payload]
        (start_locals (MessageStart ''id'') fresh_world)
   \<and> json_parse_chunk sample_js (slice6 ''data: BAD'') = None
   \<and> process_lines (processLine sample_js sample_est) [''data: BAD'', ''data: '' @ hi_payload]
        (start_locals (MessageStart ''id'') fresh_world)
       = (start_locals (MessageStart ''id'') fresh_world, Some SyntaxError)"
proof -
  have a1: "startsWith (''data: '' @ no_choices_payload) ''data: ''" by (simp add: startsWith_def)
  have a2: "slice6 (''data: '' @ no_choices_payload) \<noteq> ''[DONE]''"
    by (simp add: slice6_def no_choices_payload_def)
  have a3: "json_parse_chunk sample_js (slice6 (''data: '' @ no_choices_payload))
      = Some (Value no_choices_chunk)"
    by code_simp
  have a4: "choices no_choices_chunk = Some []" by (simp add: no_choices_chunk_def)
  have b1: "startsWith ''data: BAD'' ''data: ''" by (simp add: startsWith_def)
  have b2: "slice6 ''data: BAD'' \<noteq> ''[DONE]''" by (simp add: slice6_def)
  have b3: "json_parse_chunk sample_js (slice6 ''data: BAD'') = None" by code_simp
  show ?thesis
    using a1 a3 a4 b3
      C1_amended_no_choices_skipped_malformed_raises
        [OF a1 a2, of sample_js no_choices_chunk sample_est "[''data: '' @ hi_payload]"
          "start_locals (MessageStart ''id'') fresh_world"]
      C1_amended_no_choices_skipped_malformed_raises
        [OF b1 b2, of sample_js no_choices_chunk sample_est "[''data: '' @ hi_payload]"
          "start_locals (MessageStart ''id'') fresh_world"]
    by simp
qed

subsection \<open>C2: the boundaries of the reads\<close>

text \<open>
  C2 says that the events do not depend on how the body is cut into reads. The buffer is set
  to the new remainder before the lines of a read are processed, so when a line makes the
  callback throw, the remainder that the \<open>finally\<close> block hands to the callback is the
  unfinished tail of that read, which depends on where the read ends. The first sample text
  is \<open>data: {bad\<close>, a line feed, the well-formed line with the text \<open>Hi\<close>, a line feed; the
  second has the line \<open>data: {"choices":[{}]}\<close>, whose payload parses but has a choice
  without \<open>delta\<close>, in place of the first line. Delivered with the last line feed in a read
  of its own each emits the text group, delivered in one read each emits no content-block
  event.
\<close>

theorem C2_counterexample:
  "concat [''data: {bad\<newline>data: '' @ hi_payload, ''\<newline>'']
     = ''data: {bad\<newline>data: '' @ hi_payload @ ''\<newline>''
   \<and> emitted (convertStreamResponse sample_js sample_est
        (body_of [''data: {bad\<newline>data: '' @ hi_payload, ''\<newline>'']) None fresh_world)
       = [MessageStart ''id'', ContentBlockStart 0 (TextBlock []),
          ContentBlockDelta 0 (TextDelta ''Hi''), ContentBlockStop 0, MessageStop None]
   \<and> emitted (convertStreamResponse sample_js sample_est
        (body_of [''data: {bad\<newline>data: '' @ hi_payload @ ''\<newline>'']) None fresh_world)
       = [MessageStart ''id'', MessageStop None]
   \<and> concat [''data: '' @ nodelta_payload @ ''\<newline>data: '' @ hi_payload, ''\<newline>'']
     = ''data: '' @ nodelta_payload @ ''\<newline>data: '' @ hi_payload @ ''\<newline>''
   \<and> json_parse_chunk sample_js nodelta_payload = Some (Value nodelta_chunk)
   \<and> emitted (convertStreamResponse sample_js sample_est
        (body_of [''data: '' @ nodelta_payload @ ''\<newline>data: '' @ hi_payload, ''\<newline>''])
        None fresh_world)
       = [MessageStart ''id'', ContentBlockStart 0 (TextBlock []),
          ContentBlockDelta 0 (TextDelta ''Hi''), ContentBlockStop 0, MessageStop None]
   \<and> emitted (convertStreamResponse sample_js sample_est
        (body_of [''data: '' @ nodelta_payload @ ''\<newline>data: '' @ hi_payload @ ''\<newline>''])
        None fresh_world)
       = [MessageStart ''id'', MessageStop None]"
  by code_simp

text \<open>
  C2 as amended. Take any callback for the lines. If it throws on none of the complete lines
  of the body that begin with \<open>data: \<close> and are not the sentinel line, then for every way of
  cutting the body into reads the outcome of \<open>processProviderStream\<close> (the events emitted, in
  order, whether the stream is closed, the error raised and the final locals) is the outcome
  of the same text delivered in one read. So it is for \<open>convertStreamResponse\<close>, when neither
  \<open>JSON.parse\<close> throws on the payload of such a line nor the code of its callback that reads
  the parsed value.
\<close>

theorem C2_amended_chunk_boundary_invariance:
  "((\<forall>l\<in>set (butlast (split_nl (concat vs))).
        startsWith l ''data: '' \<and> slice6 l \<noteq> ''[DONE]''
          \<longrightarrow> (\<forall>t u w0. \<not> isl (fst (pl (slice6 l) t u w0))))
     \<longrightarrow> processProviderStream p (Some \<lparr>reads = vs, ending = e\<rparr>) pl req te w
         = processProviderStream p (Some \<lparr>reads = [concat vs], ending = e\<rparr>) pl req te w)
   \<and> ((\<forall>l\<in>set (butlast (split_nl (concat vs))).
        startsWith l ''data: '' \<and> slice6 l \<noteq> ''[DONE]''
          \<longrightarrow> (\<forall>t u w0. \<not> isl (fst (processLine p est (slice6 l) t u w0))))
     \<longrightarrow> convertStreamResponse p est (Some \<lparr>reads = vs, ending = e\<rparr>) req w
         = convertStreamResponse p est (Some \<lparr>reads = [concat vs], ending = e\<rparr>) req w)"
proof (intro conjI impI)
  assume "\<forall>l\<in>set (butlast (split_nl (concat vs))).
        startsWith l ''data: '' \<and> slice6 l \<noteq> ''[DONE]''
          \<longrightarrow> (\<forall>t u w0. \<not> isl (fst (pl (slice6 l) t u w0)))"
  then show "processProviderStream p (Some \<lparr>reads = vs, ending = e\<rparr>) pl req te w
         = processProviderStream p (Some \<lparr>reads = [concat vs], ending = e\<rparr>) pl req te w"
    by (rule provider_stream_one_chunk)
next
  assume "\<forall>l\<in>set (butlast (split_nl (concat vs))).
        startsWith l ''data: '' \<and> slice6 l \<noteq> ''[DONE]''
          \<longrightarrow> (\<forall>t u w0. \<not> isl (fst (processLine p est (slice6 l) t u w0)))"
  then show "convertStreamResponse p est (Some \<lparr>reads = vs, ending = e\<rparr>) req w
         = convertStreamResponse p est (Some \<lparr>reads = [concat vs], ending = e\<rparr>) req w"
    unfolding convertStreamResponse_def by (rule provider_stream_one_chunk)
qed

text \<open>
  The sample body delivered one character per read, in 61 reads; its one complete line that
  begins with \<open>data: \<close> and is not the sentinel line carries the text \<open>Hi\<close>.
\<close>

theorem C2_amended_witness:
  "concat (one_per_read hi_stream) = hi_stream
   \<and> length (one_per_read hi_stream) = 61
   \<and> butlast (split_nl hi_stream) = [''data: '' @ hi_payload, [], ''data: [DONE]'']
   \<and> callback_returns sample_js hi_payload
   \<and> emitted (convertStreamResponse sample_js sample_est (body_of (one_per_read hi_stream))
        None fresh_world)
       = [MessageStart ''id'', ContentBlockStart 0 (TextBlock []),
          ContentBlockDelta 0 (TextDelta ''Hi''), ContentBlockStop 0, MessageStop None]
   \<and> convertStreamResponse sample_js sample_est (body_of (one_per_read hi_stream)) None
        fresh_world
       = convertStreamResponse sample_js sample_est (body_of [hi_stream]) None fresh_world
   \<and> processProviderStream sample_js (body_of (one_per_read hi_stream))
        (processLine sample_js sample_est) None (Some sample_est) fresh_world
       = processProviderStream sample_js (body_of [hi_stream])
        (processLine sample_js sample_est) None (Some sample_est) fresh_world"
proof -
  have c: "concat (one_per_read hi_stream) = hi_stream"
    by (simp add: one_per_read_def concat_map_singleton)
  have n: "length (one_per_read hi_stream) = 61"
    by (simp add: one_per_read_def hi_stream_def hi_payload_def)
  have ls: "butlast (split_nl hi_stream) = [''data: '' @ hi_payload, [], ''data: [DONE]'']"
    by code_simp
  have r: "callback_returns sample_js hi_payload" by code_simp
  have s1: "slice6 (''data: '' @ hi_payload) = hi_payload" by (simp add: slice6_def)
  have s2: "slice6 ''data: [DONE]'' = ''[DONE]''" by (simp add: slice6_def)
  have s3: "\<not> startsWith [] ''data: ''" by (simp add: startsWith_def)
  have h: "\<forall>l\<in>set (butlast (split_nl (concat (one_per_read hi_stream)))).
      startsWith l ''data: '' \<and> slice6 l \<noteq> ''[DONE]''
        \<longrightarrow> (\<forall>t u w0. \<not> isl (fst (processLine sample_js sample_est (slice6 l) t u w0)))"
    unfolding c ls using r s1 s2 s3 by (simp add: processLine_raises_iff)
  have e: "emitted (convertStreamResponse sample_js sample_est (body_of [hi_stream])
        None fresh_world)
       = [MessageStart ''id'', ContentBlockStart 0 (TextBlock []),
          ContentBlockDelta 0 (TextDelta ''Hi''), ContentBlockStop 0, MessageStop None]"
    by code_simp
  have g: "processProviderStream sample_js (body_of (one_per_read hi_stream))
        (processLine sample_js sample_est) None (Some sample_est) fresh_world
      = processProviderStream sample_js (body_of [hi_stream])
        (processLine sample_js sample_est) None (Some sample_est) fresh_world"
    using C2_amended_chunk_boundary_invariance
      [where vs = "one_per_read hi_stream" and pl = "processLine sample_js sample_est"
         and p = sample_js and e = Done and req = None and te = "Some sample_est"
         and w = fresh_world and est = sample_est] h c
    by (simp add: body_of_def)
  from C2_amended_chunk_boundary_invariance
      [where vs = "one_per_read hi_stream" and pl = "processLine sample_js sample_est"
         and p = sample_js and e = Done and req = None and te = "Some sample_est"
         and w = fresh_world and est = sample_est] h c e n ls r g
  show ?thesis by (simp add: body_of_def)
qed

subsection \<open>C3: one \<open>message_start\<close>, one \<open>message_stop\<close>\<close>




subsection \<open>C4: start, delta and stop come as one group\<close>

text \<open>
  C4. Wherever a \<open>content_block_start\<close> with index \<open>i\<close> stands in the events that
  \<open>convertStreamResponse\<close> emits, the very next event is a \<open>content_block_delta\<close> with index
  \<open>i\<close> and the one after it is the \<open>content_block_stop\<close> with index \<open>i\<close>: no event of
  another block, and no second delta, comes between them.
\<close>

theorem C4_start_delta_stop_atomic:
  assumes "emitted (convertStreamResponse p est body req w) = pre @ ContentBlockStart i b # post"
  shows "\<exists>d post'. post = ContentBlockDelta i d # ContentBlockStop i # post'"
proof (cases body)
  case None
  with assms show ?thesis by (simp add: convertStreamResponse_def processProviderStream_def)
next
  case (Some up)
  let ?out = "convertStreamResponse p est (Some up) req w"
  obtain bs tail where bs: "triples bs"
    and em: "emitted ?out = MessageStart (random_id p (ids_drawn w)) # bs @ tail"
    and tail: "tail = [] \<or> (\<exists>u. tail = [MessageStop u])"
    using convert_shape [of p est up req w] by (cases "closed ?out") auto
  from assms Some em
  have eq: "pre @ ContentBlockStart i b # post = MessageStart (random_id p (ids_drawn w)) # bs @ tail"
    by simp
  then obtain pre' where pre: "pre = MessageStart (random_id p (ids_drawn w)) # pre'"
    by (cases pre) auto
  with eq have eq2: "pre' @ ContentBlockStart i b # post = bs @ tail" by simp
  then obtain us where
    "(pre' @ us = bs \<and> ContentBlockStart i b # post = us @ tail)
     \<or> (pre' = bs @ us \<and> us @ ContentBlockStart i b # post = tail)"
    by (auto simp: append_eq_append_conv2)
  then show ?thesis
  proof
    assume a: "pre' @ us = bs \<and> ContentBlockStart i b # post = us @ tail"
    show ?thesis
    proof (cases us)
      case Nil
      with a tail show ?thesis by auto
    next
      case (Cons x us')
      with a have "bs = pre' @ ContentBlockStart i b # us'" "post = us' @ tail" by auto
      with triples_start_followed [OF bs, of pre' i b us'] show ?thesis by auto
    qed
  next
    assume "pre' = bs @ us \<and> us @ ContentBlockStart i b # post = tail"
    with tail show ?thesis by (auto simp: append_eq_Cons_conv Cons_eq_append_conv)
  qed
qed

text \<open>
  The sample stream with one line that carries a text and a tool call: the
  \<open>content_block_start\<close> of the tool call is followed by its delta and its stop.
\<close>

theorem C4_start_delta_stop_witness:
  "emitted (convertStreamResponse sample_js sample_est
      (body_of [''data: '' @ mixed_payload @ ''\<newline>'']) None fresh_world)
     = [MessageStart ''id'', ContentBlockStart 0 (TextBlock []),
        ContentBlockDelta 0 (TextDelta ''A''), ContentBlockStop 0] @
       ContentBlockStart 0 (ToolUseBlock ''ida'' ''lookup'') #
       [ContentBlockDelta 0 (InputJsonDelta ''[1]''), ContentBlockStop 0, MessageStop None]
   \<and> (\<exists>d post'. [ContentBlockDelta 0 (InputJsonDelta ''[1]''), ContentBlockStop 0, MessageStop None]
          = ContentBlockDelta 0 d # ContentBlockStop 0 # post')"
proof -
  have h: "emitted (convertStreamResponse sample_js sample_est
      (body_of [''data: '' @ mixed_payload @ ''\<newline>'']) None fresh_world)
     = [MessageStart ''id'', ContentBlockStart 0 (TextBlock []),
        ContentBlockDelta 0 (TextDelta ''A''), ContentBlockStop 0] @
       ContentBlockStart 0 (ToolUseBlock ''ida'' ''lookup'') #
       [ContentBlockDelta 0 (InputJsonDelta ''[1]''), ContentBlockStop 0, MessageStop None]"
    by code_simp
  from C4_start_delta_stop_atomic [OF h] h show ?thesis by simp
qed

subsection \<open>C5: the remainder left in the buffer\<close>

text \<open>
  C5. In the loop a line is processed only if it is not blank, begins with \<open>data: \<close> and is
  not the sentinel \<open>data: [DONE]\<close>. The \<open>finally\<close> block tests the remainder for blankness
  only and hands \<open>buffer.slice(6)\<close> to the callback. Evaluated at sample streams: the
  unterminated sentinel \<open>data: [DONE]\<close> reaches \<open>JSON.parse\<close>, which throws, so that
  neither \<open>message_stop\<close> nor \<open>controller.close()\<close> is reached, while the same sentinel
  followed by a line feed is discarded; and an unterminated remainder that does not begin
  with \<open>data: \<close> is processed, its first six characters dropped, while the same line
  followed by a line feed is skipped.
\<close>

theorem C5_final_remainder_evaluated:
  "emitted (convertStreamResponse sample_js sample_est (body_of [''data: [DONE]'']) None
      fresh_world) = [MessageStart ''id'']
   \<and> closed (convertStreamResponse sample_js sample_est (body_of [''data: [DONE]'']) None
      fresh_world) = False
   \<and> raised (convertStreamResponse sample_js sample_est (body_of [''data: [DONE]'']) None
      fresh_world) = Some SyntaxError
   \<and> emitted (convertStreamResponse sample_js sample_est (body_of [''data: [DONE]\<newline>''])
      None fresh_world) = [MessageStart ''id'', MessageStop None]
   \<and> emitted (convertStreamResponse sample_js sample_est (body_of [''event:'' @ hi_payload])
      None fresh_world)
       = [MessageStart ''id'', ContentBlockStart 0 (TextBlock []),
          ContentBlockDelta 0 (TextDelta ''Hi''), ContentBlockStop 0, MessageStop None]
   \<and> emitted (convertStreamResponse sample_js sample_est
      (body_of [''event:'' @ hi_payload @ ''\<newline>'']) None fresh_world)
       = [MessageStart ''id'', MessageStop None]"
  by code_simp

subsection \<open>C6: the usage carried by \<open>message_stop\<close>\<close>

text \<open>
  C6. Whenever \<open>convertStreamResponse\<close> reaches \<open>sendMessageStop\<close> (the stream is then
  closed), \<open>message_stop\<close> is the last event and everything between \<open>message_start\<close> and
  it is a content-block event. With an original request supplied (the estimator always is),
  its usage has \<open>input_tokens = estimateMessages(request.messages)\<close> and \<open>output_tokens\<close>
  equal to the running total \<open>totalOutputTokens\<close> as it stands, with nothing recomputed.
  With no original request, \<open>message_stop\<close> carries no usage, and the stream is closed
  exactly when it is closed with a request. The running total is never more than the
  callback's \<open>accumulatedOutputTokens\<close>, and it is equal to it when \<open>message_stop\<close> is sent,
  unless the callback has thrown a \<open>TypeError\<close> (which it can do after it has added tokens).
\<close>

theorem C6_usage_of_message_stop:
  "(closed (convertStreamResponse p est (Some up) (Some req) w) \<longrightarrow>
      (\<exists>bs. (\<forall>e\<in>set bs. is_block_event e)
         \<and> emitted (convertStreamResponse p est (Some up) (Some req) w)
             = MessageStart (random_id p (ids_drawn w)) # bs @
               [MessageStop (Some \<lparr>input_tokens = estimateMessages est (messages req),
                  output_tokens = totalOutputTokens
                    (final (convertStreamResponse p est (Some up) (Some req) w))\<rparr>)]))
   \<and> (closed (convertStreamResponse p est (Some up) None w) \<longrightarrow>
      (\<exists>bs. (\<forall>e\<in>set bs. is_block_event e)
         \<and> emitted (convertStreamResponse p est (Some up) None w)
             = MessageStart (random_id p (ids_drawn w)) # bs @ [MessageStop None]))
   \<and> closed (convertStreamResponse p est (Some up) None w)
       = closed (convertStreamResponse p est (Some up) (Some req) w)
   \<and> totalOutputTokens (final (convertStreamResponse p est (Some up) (Some req) w))
       \<le> accumulatedOutputTokens
           (world (final (convertStreamResponse p est (Some up) (Some req) w)))
   \<and> (closed (convertStreamResponse p est (Some up) (Some req) w)
        \<and> raised (convertStreamResponse p est (Some up) (Some req) w) \<noteq> Some TypeError
      \<longrightarrow> totalOutputTokens (final (convertStreamResponse p est (Some up) (Some req) w))
          = accumulatedOutputTokens
              (world (final (convertStreamResponse p est (Some up) (Some req) w))))"
proof (intro conjI impI)
  assume c: "closed (convertStreamResponse p est (Some up) (Some req) w)"
  from convert_block_shape [of p est up "Some req" w] c
  show "\<exists>bs. (\<forall>e\<in>set bs. is_block_event e)
         \<and> emitted (convertStreamResponse p est (Some up) (Some req) w)
             = MessageStart (random_id p (ids_drawn w)) # bs @
               [MessageStop (Some \<lparr>input_tokens = estimateMessages est (messages req),
                  output_tokens = totalOutputTokens
                    (final (convertStreamResponse p est (Some up) (Some req) w))\<rparr>)]"
    by (simp add: final_usage_def)
next
  assume c: "closed (convertStreamResponse p est (Some up) None w)"
  from convert_block_shape [of p est up None w] c
  show "\<exists>bs. (\<forall>e\<in>set bs. is_block_event e)
         \<and> emitted (convertStreamResponse p est (Some up) None w)
             = MessageStart (random_id p (ids_drawn w)) # bs @ [MessageStop None]"
    by (simp add: final_usage_def)
next
  show "closed (convertStreamResponse p est (Some up) None w)
       = closed (convertStreamResponse p est (Some up) (Some req) w)"
    using convert_request [of p est "Some up" None w "Some req"] by simp
next
  show "totalOutputTokens (final (convertStreamResponse p est (Some up) (Some req) w))
       \<le> accumulatedOutputTokens
           (world (final (convertStreamResponse p est (Some up) (Some req) w)))"
    using convert_shape [of p est up "Some req" w] by blast
next
  assume "closed (convertStreamResponse p est (Some up) (Some req) w)
        \<and> raised (convertStreamResponse p est (Some up) (Some req) w) \<noteq> Some TypeError"
  then show "totalOutputTokens (final (convertStreamResponse p est (Some up) (Some req) w))
          = accumulatedOutputTokens
              (world (final (convertStreamResponse p est (Some up) (Some req) w)))"
    using convert_in_step [of p est up "Some req" w] by blast
qed

text \<open>
  The sample stream with a text and a tool call, with and without a request: nothing is
  raised, and the usage carries 4 output tokens, the value of \<open>accumulatedOutputTokens\<close>.
\<close>

theorem C6_usage_witness:
  "closed (convertStreamResponse sample_js sample_est
      (body_of [''data: '' @ mixed_payload @ ''\<newline>data: [DONE]\<newline>''])
      (Some \<lparr>messages = [''hello'']\<rparr>) fresh_world)
   \<and> raised (convertStreamResponse sample_js sample_est
      (body_of [''data: '' @ mixed_payload @ ''\<newline>data: [DONE]\<newline>''])
      (Some \<lparr>messages = [''hello'']\<rparr>) fresh_world) = None
   \<and> emitted (convertStreamResponse sample_js sample_est
      (body_of [''data: '' @ mixed_payload @ ''\<newline>data: [DONE]\<newline>''])
      (Some \<lparr>messages = [''hello'']\<rparr>) fresh_world)
      = [MessageStart ''id'',
         ContentBlockStart 0 (TextBlock []),
         ContentBlockDelta 0 (TextDelta ''A''),
         ContentBlockStop 0,
         ContentBlockStart 0 (ToolUseBlock ''ida'' ''lookup''),
         ContentBlockDelta 0 (InputJsonDelta ''[1]''),
         ContentBlockStop 0,
         MessageStop (Some \<lparr>input_tokens = 2, output_tokens = 4\<rparr>)]
   \<and> accumulatedOutputTokens (world (final (convertStreamResponse sample_js sample_est
      (body_of [''data: '' @ mixed_payload @ ''\<newline>data: [DONE]\<newline>''])
      (Some \<lparr>messages = [''hello'']\<rparr>) fresh_world))) = 4
   \<and> closed (convertStreamResponse sample_js sample_est
      (body_of [''data: '' @ mixed_payload @ ''\<newline>data: [DONE]\<newline>'']) None fresh_world)
   \<and> (\<exists>bs. emitted (convertStreamResponse sample_js sample_est
      (body_of [''data: '' @ mixed_payload @ ''\<newline>data: [DONE]\<newline>'']) None fresh_world)
      = MessageStart ''id'' # bs @ [MessageStop None])"
proof -
  let ?up = "\<lparr>reads = [''data: '' @ mixed_payload @ ''\<newline>data: [DONE]\<newline>''],
    ending = Done\<rparr>"
  let ?req = "\<lparr>messages = [''hello'']\<rparr>"
  have c1: "closed (convertStreamResponse sample_js sample_est (Some ?up) (Some ?req)
      fresh_world)"
    by code_simp
  have r1: "raised (convertStreamResponse sample_js sample_est (Some ?up) (Some ?req)
      fresh_world) = None"
    by code_simp
  have t1: "totalOutputTokens (final (convertStreamResponse sample_js sample_est (Some ?up)
      (Some ?req) fresh_world)) = 4"
    by code_simp
  have e1: "emitted (convertStreamResponse sample_js sample_est (Some ?up) (Some ?req)
      fresh_world)
      = [MessageStart ''id'',
         ContentBlockStart 0 (TextBlock []),
         ContentBlockDelta 0 (TextDelta ''A''),
         ContentBlockStop 0,
         ContentBlockStart 0 (ToolUseBlock ''ida'' ''lookup''),
         ContentBlockDelta 0 (InputJsonDelta ''[1]''),
         ContentBlockStop 0,
         MessageStop (Some \<lparr>input_tokens = 2, output_tokens = 4\<rparr>)]"
    by code_simp
  have i0: "random_id sample_js (ids_drawn fresh_world) = ''id''"
    by (simp add: sample_js_def fresh_world_def)
  from C6_usage_of_message_stop [of sample_js sample_est ?up ?req fresh_world]
  have "closed (convertStreamResponse sample_js sample_est (Some ?up) None fresh_world)
    \<and> (\<exists>bs. emitted (convertStreamResponse sample_js sample_est (Some ?up) None fresh_world)
      = MessageStart ''id'' # bs @ [MessageStop None])
    \<and> accumulatedOutputTokens (world (final (convertStreamResponse sample_js sample_est
      (Some ?up) (Some ?req) fresh_world))) = 4"
    using c1 r1 t1 i0 by auto
  with c1 r1 e1 show ?thesis by (simp add: body_of_def)
qed

text \<open>
  A sample stream on which the two counts part: the chunk carries the text \<open>A\<close> and a
  \<open>tool_calls\<close> list whose entry is \<open>null\<close>. The callback adds the token of the text, then
  throws a \<open>TypeError\<close>; \<open>message_stop\<close> carries the running total 0.
\<close>

lemma usage_after_type_error:
  "emitted (convertStreamResponse sample_js sample_est
      (body_of [''data: '' @ nullcall_payload @ ''\<newline>''])
      (Some \<lparr>messages = [''hello'']\<rparr>) fresh_world)
      = [MessageStart ''id'', MessageStop (Some \<lparr>input_tokens = 2, output_tokens = 0\<rparr>)]
   \<and> raised (convertStreamResponse sample_js sample_est
      (body_of [''data: '' @ nullcall_payload @ ''\<newline>''])
      (Some \<lparr>messages = [''hello'']\<rparr>) fresh_world) = Some TypeError
   \<and> accumulatedOutputTokens (world (final (convertStreamResponse sample_js sample_est
      (body_of [''data: '' @ nullcall_payload @ ''\<newline>''])
      (Some \<lparr>messages = [''hello'']\<rparr>) fresh_world))) = 1"
  by code_simp

subsection \<open>C7: a chunk with a text and a tool call\<close>



subsection \<open>C8: tool-call fragments without a name or without arguments\<close>

text \<open>
  C8. In the callback's loop over \<open>delta.tool_calls\<close>, a fragment whose function name or
  whose arguments are missing (or whose \<open>function\<close> is missing altogether) leaves the
  events, both indices, the identifiers drawn and \<open>accumulatedOutputTokens\<close> as they were;
  a fragment that changes any of them has both a name and arguments; and the loop over a
  list of fragments does what the loop over the fragments that have both does. Where the
  list has a \<open>null\<close> entry, the loop does so for the fragments before the first one, and
  then throws a \<open>TypeError\<close>.
\<close>

theorem C8_tool_fragment_needs_name_and_arguments:
  "(function_name toolCall = None \<or> function_arguments toolCall = None
      \<longrightarrow> tool_call_step p est st toolCall = st)
   \<and> (tool_call_step p est st toolCall \<noteq> st
      \<longrightarrow> (\<exists>n a. function_name toolCall = Some n \<and> function_arguments toolCall = Some a))
   \<and> (tool_calls d = Some (map Some tcs)
      \<longrightarrow> tool_calls_part p est d st
          = (foldl (tool_call_step p est) st
               (filter (\<lambda>tc. function_name tc \<noteq> None \<and> function_arguments tc \<noteq> None) tcs),
             None))
   \<and> (tool_calls d = Some (map Some tcs @ None # rest)
      \<longrightarrow> tool_calls_part p est d st
          = (foldl (tool_call_step p est) st
               (filter (\<lambda>tc. function_name tc \<noteq> None \<and> function_arguments tc \<noteq> None) tcs),
             Some TypeError))"
  using tool_call_step_skip [of toolCall p est st] tool_call_step_changes [of p est st toolCall]
    foldl_tool_call_step_filter [of p est st tcs]
  by (simp add: tool_calls_part_def tool_calls_loop_no_null tool_calls_loop_null)

text \<open>
  Sample fragments: one without a name, which is skipped, and one with both, which is not;
  and the sample list with the fragment without a name before a \<open>null\<close> entry.
\<close>

theorem C8_tool_fragment_witness:
  "function_name nameless_call = None
   \<and> tool_call_step sample_js sample_est ([], 0, 0, fresh_world) nameless_call
       = ([], 0, 0, fresh_world)
   \<and> tool_call_step sample_js sample_est ([], 0, 0, fresh_world) (lookup_call ''[1]'')
       \<noteq> ([], 0, 0, fresh_world)
   \<and> (\<exists>n a. function_name (lookup_call ''[1]'') = Some n
          \<and> function_arguments (lookup_call ''[1]'') = Some a)
   \<and> tool_calls_part sample_js sample_est
        \<lparr>content = None, tool_calls = Some [Some nameless_call, Some (lookup_call ''[1]'')]\<rparr>
        ([], 0, 0, fresh_world)
       = (foldl (tool_call_step sample_js sample_est) ([], 0, 0, fresh_world)
            [lookup_call ''[1]''], None)
   \<and> tool_calls_part sample_js sample_est
        \<lparr>content = None, tool_calls = Some [Some nameless_call, None]\<rparr>
        ([], 0, 0, fresh_world)
       = (([], 0, 0, fresh_world), Some TypeError)"
proof -
  have n: "function_name nameless_call = None"
    by (simp add: function_name_def nameless_call_def)
  have c: "tool_call_step sample_js sample_est ([], 0, 0, fresh_world) (lookup_call ''[1]'')
       \<noteq> ([], 0, 0, fresh_world)"
    by (simp add: tool_call_step_def function_name_def function_arguments_def lookup_call_def
        processToolUsePart_def generateId_def Let_def)
  have f: "function_name (lookup_call ''[1]'') \<noteq> None \<and> function_arguments (lookup_call ''[1]'') \<noteq> None"
    by (simp add: function_name_def function_arguments_def lookup_call_def)
  show ?thesis
    using n c f
      C8_tool_fragment_needs_name_and_arguments
        [of nameless_call sample_js sample_est "([], 0, 0, fresh_world)"
            "\<lparr>content = None, tool_calls = Some [Some nameless_call, Some (lookup_call ''[1]'')]\<rparr>"
            "[nameless_call, lookup_call ''[1]'']"]
      C8_tool_fragment_needs_name_and_arguments
        [of "lookup_call ''[1]''" sample_js sample_est "([], 0, 0, fresh_world)"
            "\<lparr>content = None, tool_calls = Some [Some nameless_call, Some (lookup_call ''[1]'')]\<rparr>"
            "[nameless_call, lookup_call ''[1]'']"]
      C8_tool_fragment_needs_name_and_arguments
        [of nameless_call sample_js sample_est "([], 0, 0, fresh_world)"
            "\<lparr>content = None, tool_calls = Some [Some nameless_call, None]\<rparr>"
            "[nameless_call]" "[]"]
    by simp
qed

subsection \<open>C9: arguments that are not JSON\<close>




subsection \<open>C10: a response without a readable body\<close>

text \<open>
  C10. When the upstream response has no readable body (\<open>providerResponse.body\<close> gives no
  reader), the outbound stream is closed at once and nothing at all has been enqueued: no
  \<open>message_start\<close>, no \<open>message_stop\<close> and no content-block event. This holds for
  \<open>processProviderStream\<close> with any line callback, and so for \<open>convertStreamResponse\<close>.
\<close>

theorem C10_missing_body_emits_nothing:
  "emitted (processProviderStream p None pl originalClaudeRequest tokenEstimator w) = []
   \<and> closed (processProviderStream p None pl originalClaudeRequest tokenEstimator w)
   \<and> raised (processProviderStream p None pl originalClaudeRequest tokenEstimator w) = None
   \<and> emitted (convertStreamResponse p est None originalClaudeRequest w) = []
   \<and> closed (convertStreamResponse p est None originalClaudeRequest w)
   \<and> raised (convertStreamResponse p est None originalClaudeRequest w) = None"
  by (simp add: processProviderStream_def convertStreamResponse_def)

text \<open>The same at the sample platform, with an original request supplied.\<close>

theorem C10_missing_body_witness:
  "emitted (convertStreamResponse sample_js sample_est None (Some \<lparr>messages = [''hello'']\<rparr>)
      fresh_world) = []
   \<and> closed (convertStreamResponse sample_js sample_est None (Some \<lparr>messages = [''hello'']\<rparr>)
      fresh_world)"
  using C10_missing_body_emits_nothing
    [of sample_js "processLine sample_js sample_est" "Some \<lparr>messages = [''hello'']\<rparr>"
        "Some sample_est" fresh_world sample_est]
  by simp

end
